theory Spec2Isabelle
  imports Main "HOL-Library.Word"
begin

section \<open>The delta tracker of a rowset (tablet/delta\_tracker.cc)\<close>

text \<open>
  The theory embeds \<^verbatim>\<open>src/tablet/delta_tracker.cc\<close>: the \<^verbatim>\<open>DeltaTracker\<close>
  (open, collect stores, update, row-deleted check, flush) and the
  \<^verbatim>\<open>DeltaIteratorMerger\<close>. The tracker's methods are state transformers on a record of
  its fields and of the objects its \<^verbatim>\<open>shared_ptr\<close>s point to. A \<^verbatim>\<open>Status\<close> is an
  \<open>error option\<close> (\<open>None\<close> is \<^verbatim>\<open>Status::OK()\<close>); a failed \<^verbatim>\<open>CHECK\<close> ends the process
  and is the \<open>Inl\<close> branch of a sum.

  The collaborators whose code is not in the source tree (the in-memory store, the delta
  file reader and writer, the per-store iterators, the file-system \<^verbatim>\<open>Env\<close>, the string
  helpers) are modelled from the specification; each such definition says so.
  The \<^verbatim>\<open>Schema\<close> is left out: columns are named by their index in the projection.
\<close>

subsection \<open>Mutations, statuses, log\<close>

type_synonym txid_t = nat
type_synonym rowid_t = nat
type_synonym addr = nat

text \<open>Modelled from the spec: a \<^verbatim>\<open>RowChangeList\<close> is either a set of (column, new value)
  pairs or a delete marker; a \<^verbatim>\<open>Mutation\<close> is (row index, transaction id, change).\<close>

datatype RowChangeList = ColumnUpdates "(nat \<times> int) list" | RowDelete

record Mutation =
  mut_row :: rowid_t
  mut_txid :: txid_t
  mut_change :: RowChangeList

text \<open>Modelled from the spec: the error taxonomy of \<^verbatim>\<open>Status\<close> (util/status.h is not
  in the source tree). Each error carries its message.\<close>

datatype error = NotFound string | Corruption string | IOError string

type_synonym status = "error option"

abbreviation OK :: status where
  "OK \<equiv> None"

fun Status_ToString :: "error \<Rightarrow> string" where
  "Status_ToString (NotFound m) = ''Not found: '' @ m"
| "Status_ToString (Corruption m) = ''Corruption: '' @ m"
| "Status_ToString (IOError m) = ''IO error: '' @ m"

datatype log_entry = LOG_INFO string | LOG_WARNING string | LOG_ERROR string

text \<open>A failed \<^verbatim>\<open>CHECK\<close>, \<^verbatim>\<open>CHECK_EQ\<close> or \<^verbatim>\<open>DCHECK_LT\<close> aborts the process. The
  \<^verbatim>\<open>DCHECK\<close>s are modelled as in a debug build.\<close>

datatype fatal = CheckFailed string | OutOfRange

subsection \<open>Decimal numbers in file names\<close>

definition digit_char :: "nat \<Rightarrow> char" where
  "digit_char d = ''0123456789'' ! d"

function show_nat :: "nat \<Rightarrow> string" where
  "show_nat n = (if n < 10 then [digit_char n] else show_nat (n div 10) @ [digit_char (n mod 10)])"
  by pat_completeness auto
termination
  by (relation "measure id") auto

declare show_nat.simps [simp del]

definition show_int :: "int \<Rightarrow> string" where
  "show_int i = (if i < 0 then CHR ''-'' # show_nat (nat (- i)) else show_nat (nat i))"

definition is_digit :: "char \<Rightarrow> bool" where
  "is_digit c = ((48::nat) \<le> of_char c \<and> of_char c \<le> (57::nat))"

definition digit_val :: "char \<Rightarrow> nat" where
  "digit_val c = of_char c - 48"

fun parse_digits :: "nat \<Rightarrow> string \<Rightarrow> nat option" where
  "parse_digits acc [] = Some acc"
| "parse_digits acc (c # cs) =
     (if is_digit c then parse_digits (10 * acc + digit_val c) cs else None)"

text \<open>Modelled from the spec: \<^verbatim>\<open>safe_strtou32\<close> (gutil/strings/numbers.h is not in the
  source tree) parses the non-negative decimal sequence index of a file name \<^verbatim>\<open>delta_<N>\<close>
  into a \<^verbatim>\<open>uint32_t\<close>; an empty suffix, a suffix with a character that is not a digit and
  a number that does not fit 32 bits are refused.\<close>

definition safe_strtou32 :: "string \<Rightarrow> 32 word option" where
  "safe_strtou32 s =
     (if s = [] then None
      else case parse_digits 0 s of
             None \<Rightarrow> None
           | Some n \<Rightarrow> if n < 2 ^ 32 then Some (of_nat n) else None)"

text \<open>Modelled from the spec: \<^verbatim>\<open>TryStripPrefixString\<close> (gutil/strings/strip.h): when the
  string starts with the prefix, the rest of it.\<close>

fun TryStripPrefixString :: "string \<Rightarrow> string \<Rightarrow> string option" where
  "TryStripPrefixString s [] = Some s"
| "TryStripPrefixString [] (p # ps) = None"
| "TryStripPrefixString (c # cs) (p # ps) = (if c = p then TryStripPrefixString cs ps else None)"

text \<open>Modelled from the spec: the naming constants of \<^verbatim>\<open>DiskRowSet\<close> (tablet/diskrowset.h
  is not in the source tree). Delta files are named \<^verbatim>\<open>delta_<N>\<close>; column-data files use a
  distinct recognised prefix.\<close>

definition kDeltaPrefix :: string where
  "kDeltaPrefix = ''delta_''"

definition kColumnPrefix :: string where
  "kColumnPrefix = ''col_''"

text \<open>Modelled from the spec: \<^verbatim>\<open>Env::JoinPathSegments\<close> and \<^verbatim>\<open>DiskRowSet::GetDeltaPath\<close>:
  the path of an entry of a directory, and the path of the delta file with a given index
  (the index is an \<^verbatim>\<open>int\<close> there, printed in decimal).\<close>

definition JoinPathSegments :: "string \<Rightarrow> string \<Rightarrow> string" where
  "JoinPathSegments a b = a @ ''/'' @ b"

definition GetDeltaPath :: "string \<Rightarrow> int \<Rightarrow> string" where
  "GetDeltaPath dir idx = JoinPathSegments dir (kDeltaPrefix @ show_int idx)"

subsection \<open>The in-memory store\<close>

text \<open>Modelled from the spec: the \<^verbatim>\<open>DeltaMemStore\<close> (tablet/deltamemstore.cc is not in the
  source tree) holds its mutations ordered by (row index, transaction id); \<^verbatim>\<open>Update\<close>
  inserts one, \<^verbatim>\<open>Count\<close> is their number, \<^verbatim>\<open>CheckRowDeleted\<close> looks at the whole content
  and cannot fail, \<^verbatim>\<open>FlushToFile\<close> writes them in their order.\<close>

type_synonym DeltaMemStore = "Mutation list"

definition key_le :: "Mutation \<Rightarrow> Mutation \<Rightarrow> bool" where
  "key_le a b = (mut_row a < mut_row b \<or> (mut_row a = mut_row b \<and> mut_txid a \<le> mut_txid b))"

fun dms_insert :: "Mutation \<Rightarrow> DeltaMemStore \<Rightarrow> DeltaMemStore" where
  "dms_insert m [] = [m]"
| "dms_insert m (x # xs) = (if key_le x m then x # dms_insert m xs else m # x # xs)"

definition DMS_Update :: "DeltaMemStore \<Rightarrow> txid_t \<Rightarrow> rowid_t \<Rightarrow> RowChangeList \<Rightarrow> DeltaMemStore" where
  "DMS_Update dms txid row_idx update =
     dms_insert \<lparr>mut_row = row_idx, mut_txid = txid, mut_change = update\<rparr> dms"

definition DMS_Count :: "DeltaMemStore \<Rightarrow> nat" where
  "DMS_Count dms = length dms"

definition has_delete :: "Mutation list \<Rightarrow> rowid_t \<Rightarrow> bool" where
  "has_delete ms row_idx = list_ex (\<lambda>m. mut_row m = row_idx \<and> mut_change m = RowDelete) ms"

definition DMS_CheckRowDeleted :: "DeltaMemStore \<Rightarrow> rowid_t \<Rightarrow> error + bool" where
  "DMS_CheckRowDeleted dms row_idx = Inr (has_delete dms row_idx)"

subsection \<open>The file system and the delta files\<close>

text \<open>Modelled from the spec: the file-system abstraction \<^verbatim>\<open>Env\<close> and the delta-file
  layer (util/env.h and tablet/deltafile.cc are not in the source tree). The environment
  gives the answer of \<^verbatim>\<open>GetChildren\<close> for each directory, the content of each delta file
  (its mutations, in file order; the byte format is not modelled), and the I/O faults: a
  path whose reads fail, and a path whose write fails at a given call of the writer
  lifecycle.\<close>

datatype write_stage = AtOpenFileForWrite | AtStart | AtFlushToFile | AtFinish

record env =
  children :: "string \<Rightarrow> error + string list"
  files :: "string \<rightharpoonup> Mutation list"
  read_fault :: "string \<rightharpoonup> error"
  write_fault :: "string \<rightharpoonup> write_stage \<times> error"

record DeltaFileReader =
  dfr_path :: string
  dfr_muts :: "Mutation list"

definition GetChildren :: "env \<Rightarrow> string \<Rightarrow> error + string list" where
  "GetChildren e dir = children e dir"

text \<open>Modelled from the spec: \<^verbatim>\<open>DeltaFileReader::Open\<close> answers an error for a file that
  cannot be read (missing, zero-length, corrupt: the fault of the path) and a reader over
  the file's content otherwise.\<close>

definition DeltaFileReader_Open :: "env \<Rightarrow> string \<Rightarrow> error + DeltaFileReader" where
  "DeltaFileReader_Open e path =
     (case read_fault e path of
        Some err \<Rightarrow> Inl err
      | None \<Rightarrow>
          (case files e path of
             None \<Rightarrow> Inl (NotFound path)
           | Some ms \<Rightarrow> Inr \<lparr>dfr_path = path, dfr_muts = ms\<rparr>))"

text \<open>Modelled from the spec: the writer lifecycle \<^verbatim>\<open>OpenFileForWrite\<close>, \<^verbatim>\<open>Start\<close>,
  \<^verbatim>\<open>FlushToFile\<close>, \<^verbatim>\<open>Finish\<close>. Each call answers the fault of the path when the fault is
  at its stage. The file holds the flushed mutations once \<^verbatim>\<open>Finish\<close> has succeeded; the
  content of a file whose write failed is not modelled.\<close>

definition stage_status :: "env \<Rightarrow> string \<Rightarrow> write_stage \<Rightarrow> status" where
  "stage_status e path stage =
     (case write_fault e path of
        None \<Rightarrow> OK
      | Some (st, err) \<Rightarrow> if st = stage then Some err else OK)"

definition write_file :: "env \<Rightarrow> string \<Rightarrow> Mutation list \<Rightarrow> env" where
  "write_file e path ms = e\<lparr>files := (files e)(path \<mapsto> ms)\<rparr>"

subsection \<open>The tracker's state\<close>

text \<open>A \<^verbatim>\<open>shared_ptr<DeltaStore>\<close> points to a \<^verbatim>\<open>DeltaMemStore\<close> or to a
  \<^verbatim>\<open>DeltaFileReader\<close>; two handles are equal when they point to the same object. The objects
  live in two heaps, kept in the same record as the fields of the tracker, with the log of
  the process; \<open>next_addr\<close> is the next address \<^verbatim>\<open>new\<close> hands out. A member
  \<^verbatim>\<open>x_\<close> of the class is the field \<open>m_x\<close> (a name cannot end in an underscore). The field
  \<open>m_next_deltafile_idx\<close> is a \<^verbatim>\<open>uint32_t\<close> (it is compared by \<^verbatim>\<open>std::max\<close> with
  \<^verbatim>\<open>deltafile_idx + 1\<close>).\<close>

datatype store_ref = MemStore addr | FileStore addr

record tracker =
  m_dir :: string
  m_num_rows :: rowid_t
  m_open :: bool
  m_next_deltafile_idx :: "32 word"
  m_dms :: addr
  m_delta_stores :: "store_ref list"
  mem_heap :: "addr \<Rightarrow> DeltaMemStore"
  file_heap :: "addr \<Rightarrow> DeltaFileReader"
  next_addr :: addr
  log :: "log_entry list"

definition LOG :: "log_entry \<Rightarrow> tracker \<Rightarrow> tracker" where
  "LOG entry t = t\<lparr>log := log t @ [entry]\<rparr>"

text \<open>\<^verbatim>\<open>new DeltaMemStore(schema)\<close>: a fresh, empty store.\<close>

definition new_DeltaMemStore :: "tracker \<Rightarrow> addr \<times> tracker" where
  "new_DeltaMemStore t =
     (next_addr t, t\<lparr>mem_heap := (mem_heap t)(next_addr t := []), next_addr := Suc (next_addr t)\<rparr>)"

definition new_DeltaFileReader :: "DeltaFileReader \<Rightarrow> tracker \<Rightarrow> addr \<times> tracker" where
  "new_DeltaFileReader r t =
     (next_addr t, t\<lparr>file_heap := (file_heap t)(next_addr t := r), next_addr := Suc (next_addr t)\<rparr>)"

text \<open>The constructor, in a process that has allocated nothing yet.\<close>

definition DeltaTracker :: "string \<Rightarrow> rowid_t \<Rightarrow> tracker" where
  "DeltaTracker dir num_rows =
     \<lparr>m_dir = dir, m_num_rows = num_rows, m_open = False, m_next_deltafile_idx = 0,
      m_dms = 0, m_delta_stores = [],
      mem_heap = (\<lambda>_. []), file_heap = (\<lambda>_. \<lparr>dfr_path = [], dfr_muts = []\<rparr>),
      next_addr = 1, log = []\<rparr>"

subsection \<open>Open\<close>

text \<open>\<^verbatim>\<open>DeltaTracker::Open\<close> (lines 161 to 203). The loop over the directory entries is
  \<open>Open_loop\<close>; \<open>add_delta_file\<close> is the end of the branch of a delta file that opened:
  the log line, the \<^verbatim>\<open>push_back\<close> of the reader and the new \<^verbatim>\<open>next_deltafile_idx_\<close>
  (the addition is that of \<^verbatim>\<open>uint32_t\<close>).\<close>

definition add_delta_file :: "tracker \<Rightarrow> string \<Rightarrow> DeltaFileReader \<Rightarrow> 32 word \<Rightarrow> tracker" where
  "add_delta_file t absolute_path dfr deltafile_idx =
     (let t1 = LOG (LOG_INFO (''Successfully opened delta file '' @ absolute_path)) t;
          (a, t2) = new_DeltaFileReader dfr t1;
          t3 = t2\<lparr>m_delta_stores := m_delta_stores t2 @ [FileStore a]\<rparr>
      in t3\<lparr>m_next_deltafile_idx := max (m_next_deltafile_idx t3) (deltafile_idx + 1)\<rparr>)"

fun Open_loop :: "env \<Rightarrow> tracker \<Rightarrow> string list \<Rightarrow> status \<times> tracker" where
  "Open_loop e t [] = (OK, t)"
| "Open_loop e t (child # rest) =
     (if child \<noteq> [] \<and> hd child = CHR ''.'' then Open_loop e t rest
      else
        (case TryStripPrefixString child kDeltaPrefix of
           Some suffix \<Rightarrow>
             (case safe_strtou32 suffix of
                None \<Rightarrow> (Some (IOError (''Bad delta file: '' @ JoinPathSegments (m_dir t) child)), t)
              | Some deltafile_idx \<Rightarrow>
                  (case DeltaFileReader_Open e (JoinPathSegments (m_dir t) child) of
                     Inl s \<Rightarrow>
                       (Some s,
                        LOG (LOG_ERROR (''Failed to open delta file '' @ JoinPathSegments (m_dir t) child
                                         @ '': '' @ Status_ToString s)) t)
                   | Inr dfr \<Rightarrow>
                       Open_loop e (add_delta_file t (JoinPathSegments (m_dir t) child) dfr deltafile_idx) rest))
         | None \<Rightarrow>
             (case TryStripPrefixString child kColumnPrefix of
                Some suffix \<Rightarrow> Open_loop e t rest
              | None \<Rightarrow>
                  Open_loop e (LOG (LOG_WARNING (''ignoring unknown file: '' @ JoinPathSegments (m_dir t) child)) t)
                    rest)))"

definition Open :: "env \<Rightarrow> tracker \<Rightarrow> fatal + status \<times> tracker" where
  "Open e t =
     (if m_delta_stores t \<noteq> [] then Inl (CheckFailed ''should call before opening any readers'')
      else if m_open t then Inl (CheckFailed ''!open_'')
      else
        (case GetChildren e (m_dir t) of
           Inl s \<Rightarrow> Inr (Some s, t)
         | Inr childs \<Rightarrow> Inr (Open_loop e t childs)))"

subsection \<open>CollectStores, Update, CheckRowDeleted\<close>

text \<open>\<^verbatim>\<open>DeltaTracker::CollectStores\<close> (lines 206 to 210): \<open>deltas\<close> is the vector the
  caller passes; \<^verbatim>\<open>assign\<close> replaces what it held. The method is \<^verbatim>\<open>const\<close>; the model
  returns the tracker too, so that this is a statement.\<close>

definition CollectStores :: "tracker \<Rightarrow> store_ref list \<Rightarrow> tracker \<times> store_ref list" where
  "CollectStores t deltas =
     (let deltas1 = m_delta_stores t;
          deltas2 = deltas1 @ [MemStore (m_dms t)]
      in (t, deltas2))"

text \<open>\<^verbatim>\<open>DeltaTracker::Update\<close> (lines 226 to 233).\<close>

definition Update :: "tracker \<Rightarrow> txid_t \<Rightarrow> rowid_t \<Rightarrow> RowChangeList \<Rightarrow> fatal + tracker" where
  "Update t txid row_idx update =
     (if \<not> row_idx < m_num_rows t then Inl (CheckFailed ''row_idx < num_rows_'')
      else Inr (t\<lparr>mem_heap := (mem_heap t)(m_dms t := DMS_Update (mem_heap t (m_dms t)) txid row_idx update)\<rparr>))"

text \<open>Modelled from the spec: \<^verbatim>\<open>DeltaFileReader::CheckRowDeleted\<close> looks at the whole
  content of the file; an I/O failure reading the backing storage is an error.\<close>

definition DeltaFileReader_CheckRowDeleted :: "env \<Rightarrow> DeltaFileReader \<Rightarrow> rowid_t \<Rightarrow> error + bool" where
  "DeltaFileReader_CheckRowDeleted e r row_idx =
     (case read_fault e (dfr_path r) of
        Some err \<Rightarrow> Inl err
      | None \<Rightarrow> Inr (has_delete (dfr_muts r) row_idx))"

text \<open>The virtual call \<^verbatim>\<open>ds->CheckRowDeleted\<close> on a store handle.\<close>

fun DeltaStore_CheckRowDeleted :: "env \<Rightarrow> tracker \<Rightarrow> store_ref \<Rightarrow> rowid_t \<Rightarrow> error + bool" where
  "DeltaStore_CheckRowDeleted e t (MemStore a) row_idx = DMS_CheckRowDeleted (mem_heap t a) row_idx"
| "DeltaStore_CheckRowDeleted e t (FileStore a) row_idx =
     DeltaFileReader_CheckRowDeleted e (file_heap t a) row_idx"

text \<open>\<^verbatim>\<open>DeltaTracker::CheckRowDeleted\<close> (lines 235 to 256). The result is the status and
  \<^verbatim>\<open>*deleted\<close>, which is false when a store's check fails. \<open>CheckRowDeleted_loop\<close> is the
  \<^verbatim>\<open>BOOST_REVERSE_FOREACH\<close>, given the stores in the order it visits them.\<close>

fun CheckRowDeleted_loop :: "env \<Rightarrow> tracker \<Rightarrow> rowid_t \<Rightarrow> store_ref list \<Rightarrow> status \<times> bool" where
  "CheckRowDeleted_loop e t row_idx [] = (OK, False)"
| "CheckRowDeleted_loop e t row_idx (ds # rest) =
     (case DeltaStore_CheckRowDeleted e t ds row_idx of
        Inl s \<Rightarrow> (Some s, False)
      | Inr deleted \<Rightarrow> if deleted then (OK, True) else CheckRowDeleted_loop e t row_idx rest)"

definition CheckRowDeleted :: "env \<Rightarrow> tracker \<Rightarrow> rowid_t \<Rightarrow> fatal + status \<times> bool" where
  "CheckRowDeleted e t row_idx =
     (if \<not> row_idx < m_num_rows t then Inl (CheckFailed ''row_idx < num_rows_'')
      else
        (case DMS_CheckRowDeleted (mem_heap t (m_dms t)) row_idx of
           Inl s \<Rightarrow> Inr (Some s, False)
         | Inr deleted \<Rightarrow>
             if deleted then Inr (OK, True)
             else Inr (CheckRowDeleted_loop e t row_idx (rev (m_delta_stores t)))))"

subsection \<open>Flush\<close>

text \<open>\<^verbatim>\<open>DeltaTracker::FlushDMS\<close> (lines 258 to 289). \<open>dms\<close> is the address of the store
  to flush. The result is the environment, the tracker (its index was incremented, whatever
  happens next) and either the error or the address of the reader put into \<^verbatim>\<open>*dfr\<close>. The
  \<^verbatim>\<open>uint32_t\<close> index becomes the \<^verbatim>\<open>int deltafile_idx\<close>.\<close>

definition FlushDMS :: "env \<Rightarrow> tracker \<Rightarrow> addr \<Rightarrow> env \<times> tracker \<times> (error + addr)" where
  "FlushDMS e t dms =
     (let deltafile_idx = sint (m_next_deltafile_idx t);
          t1 = t\<lparr>m_next_deltafile_idx := m_next_deltafile_idx t + 1\<rparr>;
          path = GetDeltaPath (m_dir t1) deltafile_idx
      in case stage_status e path AtOpenFileForWrite of
           Some s \<Rightarrow>
             (e, LOG (LOG_WARNING (''Unable to open output file for delta level '' @ show_int deltafile_idx
                                    @ '' at path '' @ path @ '': '' @ Status_ToString s)) t1, Inl s)
         | None \<Rightarrow>
        (case stage_status e path AtStart of
           Some s \<Rightarrow> (e, LOG (LOG_WARNING (''Unable to start delta file writer for path '' @ path)) t1, Inl s)
         | None \<Rightarrow>
        (case stage_status e path AtFlushToFile of
           Some s \<Rightarrow> (e, t1, Inl s)
         | None \<Rightarrow>
        (case stage_status e path AtFinish of
           Some s \<Rightarrow> (e, t1, Inl s)
         | None \<Rightarrow>
        (let e1 = write_file e path (mem_heap t1 dms);
             t2 = LOG (LOG_INFO (''Flushed delta file: '' @ path)) t1
         in case DeltaFileReader_Open e1 path of
              Inl s \<Rightarrow> (e1, t2, Inl s)
            | Inr r \<Rightarrow>
                (let (a, t3) = new_DeltaFileReader r t2
                 in (e1, LOG (LOG_INFO (''Reopened delta file for read: '' @ path)) t3, Inr a)))))))"

text \<open>\<^verbatim>\<open>DeltaTracker::Flush\<close> (lines 291 to 343) has three parts. \<open>flush_swap\<close> is the
  first critical section (lines 297 to 312): \<open>None\<close> is the early return on an empty
  store, otherwise the captured \<^verbatim>\<open>old_dms\<close>, the count and the new tracker.
  \<open>flush_commit\<close> is the second critical section (lines 330 to 337); on an empty list
  \<^verbatim>\<open>size() - 1\<close> wraps around and the read is out of range.\<close>

definition flush_swap :: "tracker \<Rightarrow> (addr \<times> nat \<times> tracker) option" where
  "flush_swap t =
     (let count = DMS_Count (mem_heap t (m_dms t))
      in if count = 0 then None
         else
           (let old_dms = m_dms t;
                (a, t1) = new_DeltaMemStore t;
                t2 = t1\<lparr>m_dms := a\<rparr>;
                t3 = t2\<lparr>m_delta_stores := m_delta_stores t2 @ [MemStore old_dms]\<rparr>
            in Some (old_dms, count, t3)))"

definition flush_commit :: "tracker \<Rightarrow> addr \<Rightarrow> addr \<Rightarrow> fatal + tracker" where
  "flush_commit t old_dms dfr =
     (if m_delta_stores t = [] then Inl OutOfRange
      else
        (let idx = length (m_delta_stores t) - 1
         in if m_delta_stores t ! idx \<noteq> MemStore old_dms
            then Inl (CheckFailed ''Another thread modified the delta store list during flush'')
            else Inr (t\<lparr>m_delta_stores := (m_delta_stores t)[idx := FileStore dfr]\<rparr>)))"

definition Flush :: "env \<Rightarrow> tracker \<Rightarrow> fatal + status \<times> env \<times> tracker" where
  "Flush e t =
     (case flush_swap t of
        None \<Rightarrow> Inr (OK, e, t)
      | Some (old_dms, count, t1) \<Rightarrow>
          (let t2 = LOG (LOG_INFO (''Flushing '' @ show_nat count @ '' deltas...'')) t1
           in case FlushDMS e t2 old_dms of
                (e', t3, Inl s) \<Rightarrow> Inl (CheckFailed (''Failed to flush DMS: '' @ Status_ToString s))
              | (e', t3, Inr dfr) \<Rightarrow>
                  (case flush_commit t3 old_dms dfr of
                     Inl f \<Rightarrow> Inl f
                   | Inr t4 \<Rightarrow> Inr (OK, e', t4))))"

subsection \<open>The per-store iterators\<close>

text \<open>Modelled from the spec: the iterator a store hands out (tablet/deltamemstore.cc and
  tablet/deltafile.cc are not in the source tree). It holds the store's mutations, in the
  store's order (row index, then transaction id), the snapshot, the row window set by
  \<^verbatim>\<open>SeekToOrdinal\<close> and \<^verbatim>\<open>PrepareBatch\<close>, and, for the file variant, the I/O fault of the
  backing file: every call of a faulty iterator answers that error and changes nothing.
  \<^verbatim>\<open>ApplyUpdates\<close> overwrites, in the destination block, the cell of each row of the
  window that a visible mutation updates in the requested column; \<^verbatim>\<open>CollectMutations\<close>
  appends the raw mutations of the window to the output. The \<^verbatim>\<open>Arena\<close> is left out.\<close>

type_synonym MvccSnapshot = "txid_t \<Rightarrow> bool"
type_synonym ColumnBlock = "int list"

record StoreIterator =
  it_muts :: "Mutation list"
  it_snap :: MvccSnapshot
  it_fault :: "error option"
  it_cur :: rowid_t
  it_nrows :: nat

definition Store_Init :: "StoreIterator \<Rightarrow> status \<times> StoreIterator" where
  "Store_Init it = (it_fault it, it)"

definition Store_SeekToOrdinal :: "StoreIterator \<Rightarrow> rowid_t \<Rightarrow> status \<times> StoreIterator" where
  "Store_SeekToOrdinal it idx =
     (case it_fault it of Some err \<Rightarrow> (Some err, it) | None \<Rightarrow> (OK, it\<lparr>it_cur := idx\<rparr>))"

definition Store_PrepareBatch :: "StoreIterator \<Rightarrow> nat \<Rightarrow> status \<times> StoreIterator" where
  "Store_PrepareBatch it nrows =
     (case it_fault it of Some err \<Rightarrow> (Some err, it) | None \<Rightarrow> (OK, it\<lparr>it_nrows := nrows\<rparr>))"

definition in_batch :: "StoreIterator \<Rightarrow> Mutation \<Rightarrow> bool" where
  "in_batch it m = (it_cur it \<le> mut_row m \<and> mut_row m < it_cur it + it_nrows it)"

definition batch_muts :: "StoreIterator \<Rightarrow> Mutation list" where
  "batch_muts it = filter (in_batch it) (it_muts it)"

definition visible_muts :: "StoreIterator \<Rightarrow> Mutation list" where
  "visible_muts it = filter (\<lambda>m. it_snap it (mut_txid m)) (batch_muts it)"

fun apply_cols :: "nat \<Rightarrow> nat \<Rightarrow> (nat \<times> int) list \<Rightarrow> ColumnBlock \<Rightarrow> ColumnBlock" where
  "apply_cols col i [] dst = dst"
| "apply_cols col i ((c, v) # cvs) dst = apply_cols col i cvs (if c = col then dst[i := v] else dst)"

definition apply_mutation :: "rowid_t \<Rightarrow> nat \<Rightarrow> ColumnBlock \<Rightarrow> Mutation \<Rightarrow> ColumnBlock" where
  "apply_mutation cur col dst m =
     (case mut_change m of
        RowDelete \<Rightarrow> dst
      | ColumnUpdates cvs \<Rightarrow> apply_cols col (mut_row m - cur) cvs dst)"

definition Store_ApplyUpdates :: "StoreIterator \<Rightarrow> nat \<Rightarrow> ColumnBlock \<Rightarrow> status \<times> ColumnBlock" where
  "Store_ApplyUpdates it col_to_apply dst =
     (case it_fault it of
        Some err \<Rightarrow> (Some err, dst)
      | None \<Rightarrow> (OK, foldl (apply_mutation (it_cur it) col_to_apply) dst (visible_muts it)))"

definition Store_CollectMutations :: "StoreIterator \<Rightarrow> Mutation list \<Rightarrow> status \<times> Mutation list" where
  "Store_CollectMutations it dst =
     (case it_fault it of
        Some err \<Rightarrow> (Some err, dst)
      | None \<Rightarrow> (OK, dst @ batch_muts it))"

text \<open>The virtual call \<^verbatim>\<open>store->NewDeltaIterator(projection, snapshot)\<close> on a store handle.\<close>

fun DeltaStore_NewDeltaIterator :: "env \<Rightarrow> tracker \<Rightarrow> MvccSnapshot \<Rightarrow> store_ref \<Rightarrow> StoreIterator" where
  "DeltaStore_NewDeltaIterator e t snap (MemStore a) =
     \<lparr>it_muts = mem_heap t a, it_snap = snap, it_fault = None, it_cur = 0, it_nrows = 0\<rparr>"
| "DeltaStore_NewDeltaIterator e t snap (FileStore a) =
     \<lparr>it_muts = dfr_muts (file_heap t a), it_snap = snap,
      it_fault = read_fault e (dfr_path (file_heap t a)), it_cur = 0, it_nrows = 0\<rparr>"

subsection \<open>The merging iterator\<close>

text \<open>The \<^verbatim>\<open>DeltaIteratorMerger\<close> (lines 26 to 141). Its field \<^verbatim>\<open>iters_\<close> is the list of
  the iterators of the stores; each method is a loop over it that returns at the first
  status that is not OK. \<^verbatim>\<open>Init\<close>, \<^verbatim>\<open>SeekToOrdinal\<close> and \<^verbatim>\<open>PrepareBatch\<close> change the
  iterators, so they return them; \<^verbatim>\<open>ApplyUpdates\<close> and \<^verbatim>\<open>CollectMutations\<close> change
  \<^verbatim>\<open>*dst\<close>, so they return it, on failure too. \<^verbatim>\<open>ApplyDeletes\<close> and \<^verbatim>\<open>ToString\<close>, loops
  of the same shape, are not needed here.\<close>

fun DeltaIteratorMerger_Init :: "StoreIterator list \<Rightarrow> status \<times> StoreIterator list" where
  "DeltaIteratorMerger_Init [] = (OK, [])"
| "DeltaIteratorMerger_Init (iter # rest) =
     (case Store_Init iter of
        (Some s, iter') \<Rightarrow> (Some s, iter' # rest)
      | (None, iter') \<Rightarrow> (case DeltaIteratorMerger_Init rest of (s, rest') \<Rightarrow> (s, iter' # rest')))"

fun DeltaIteratorMerger_SeekToOrdinal :: "StoreIterator list \<Rightarrow> rowid_t \<Rightarrow> status \<times> StoreIterator list" where
  "DeltaIteratorMerger_SeekToOrdinal [] idx = (OK, [])"
| "DeltaIteratorMerger_SeekToOrdinal (iter # rest) idx =
     (case Store_SeekToOrdinal iter idx of
        (Some s, iter') \<Rightarrow> (Some s, iter' # rest)
      | (None, iter') \<Rightarrow>
          (case DeltaIteratorMerger_SeekToOrdinal rest idx of (s, rest') \<Rightarrow> (s, iter' # rest')))"

fun DeltaIteratorMerger_PrepareBatch :: "StoreIterator list \<Rightarrow> nat \<Rightarrow> status \<times> StoreIterator list" where
  "DeltaIteratorMerger_PrepareBatch [] nrows = (OK, [])"
| "DeltaIteratorMerger_PrepareBatch (iter # rest) nrows =
     (case Store_PrepareBatch iter nrows of
        (Some s, iter') \<Rightarrow> (Some s, iter' # rest)
      | (None, iter') \<Rightarrow>
          (case DeltaIteratorMerger_PrepareBatch rest nrows of (s, rest') \<Rightarrow> (s, iter' # rest')))"

fun DeltaIteratorMerger_ApplyUpdates :: "StoreIterator list \<Rightarrow> nat \<Rightarrow> ColumnBlock \<Rightarrow> status \<times> ColumnBlock" where
  "DeltaIteratorMerger_ApplyUpdates [] col_to_apply dst = (OK, dst)"
| "DeltaIteratorMerger_ApplyUpdates (iter # rest) col_to_apply dst =
     (case Store_ApplyUpdates iter col_to_apply dst of
        (Some s, dst') \<Rightarrow> (Some s, dst')
      | (None, dst') \<Rightarrow> DeltaIteratorMerger_ApplyUpdates rest col_to_apply dst')"

fun DeltaIteratorMerger_CollectMutations :: "StoreIterator list \<Rightarrow> Mutation list \<Rightarrow> status \<times> Mutation list" where
  "DeltaIteratorMerger_CollectMutations [] dst = (OK, dst)"
| "DeltaIteratorMerger_CollectMutations (iter # rest) dst =
     (case Store_CollectMutations iter dst of
        (Some s, dst') \<Rightarrow> (Some s, dst')
      | (None, dst') \<Rightarrow> DeltaIteratorMerger_CollectMutations rest dst')"

text \<open>A \<^verbatim>\<open>shared_ptr<DeltaIterator>\<close> is the iterator of one store or a merger; the
  methods dispatch on it.\<close>

datatype DeltaIterator = Unwrapped StoreIterator | Merger "StoreIterator list"

fun Init :: "DeltaIterator \<Rightarrow> status \<times> DeltaIterator" where
  "Init (Unwrapped it) = (case Store_Init it of (s, it') \<Rightarrow> (s, Unwrapped it'))"
| "Init (Merger iters) = (case DeltaIteratorMerger_Init iters of (s, iters') \<Rightarrow> (s, Merger iters'))"

fun SeekToOrdinal :: "DeltaIterator \<Rightarrow> rowid_t \<Rightarrow> status \<times> DeltaIterator" where
  "SeekToOrdinal (Unwrapped it) idx = (case Store_SeekToOrdinal it idx of (s, it') \<Rightarrow> (s, Unwrapped it'))"
| "SeekToOrdinal (Merger iters) idx =
     (case DeltaIteratorMerger_SeekToOrdinal iters idx of (s, iters') \<Rightarrow> (s, Merger iters'))"

fun PrepareBatch :: "DeltaIterator \<Rightarrow> nat \<Rightarrow> status \<times> DeltaIterator" where
  "PrepareBatch (Unwrapped it) nrows = (case Store_PrepareBatch it nrows of (s, it') \<Rightarrow> (s, Unwrapped it'))"
| "PrepareBatch (Merger iters) nrows =
     (case DeltaIteratorMerger_PrepareBatch iters nrows of (s, iters') \<Rightarrow> (s, Merger iters'))"

fun ApplyUpdates :: "DeltaIterator \<Rightarrow> nat \<Rightarrow> ColumnBlock \<Rightarrow> status \<times> ColumnBlock" where
  "ApplyUpdates (Unwrapped it) col_to_apply dst = Store_ApplyUpdates it col_to_apply dst"
| "ApplyUpdates (Merger iters) col_to_apply dst = DeltaIteratorMerger_ApplyUpdates iters col_to_apply dst"

fun CollectMutations :: "DeltaIterator \<Rightarrow> Mutation list \<Rightarrow> status \<times> Mutation list" where
  "CollectMutations (Unwrapped it) dst = Store_CollectMutations it dst"
| "CollectMutations (Merger iters) dst = DeltaIteratorMerger_CollectMutations iters dst"

text \<open>The iterators a \<^verbatim>\<open>DeltaIterator\<close> is made of, in their order.\<close>

fun iters_of :: "DeltaIterator \<Rightarrow> StoreIterator list" where
  "iters_of (Unwrapped it) = [it]"
| "iters_of (Merger iters) = iters"

text \<open>\<^verbatim>\<open>DeltaIteratorMerger::Create\<close> (lines 122 to 141) and
  \<^verbatim>\<open>DeltaTracker::NewDeltaIterator\<close> (lines 212 to 217).\<close>

definition DeltaIteratorMerger_Create :: "env \<Rightarrow> tracker \<Rightarrow> store_ref list \<Rightarrow> MvccSnapshot \<Rightarrow> DeltaIterator" where
  "DeltaIteratorMerger_Create e t stores snapshot =
     (let delta_iters = map (DeltaStore_NewDeltaIterator e t snapshot) stores
      in if length delta_iters = 1 then Unwrapped (delta_iters ! 0) else Merger delta_iters)"

definition NewDeltaIterator :: "env \<Rightarrow> tracker \<Rightarrow> MvccSnapshot \<Rightarrow> tracker \<times> DeltaIterator" where
  "NewDeltaIterator e t snap =
     (case CollectStores t [] of (t', stores) \<Rightarrow> (t', DeltaIteratorMerger_Create e t' stores snap))"

subsection \<open>Calls that interleave with a flush\<close>

text \<open>\<^verbatim>\<open>Update\<close>, \<^verbatim>\<open>CollectStores\<close>, \<^verbatim>\<open>NewDeltaIterator\<close> and \<^verbatim>\<open>CheckRowDeleted\<close>
  take \<^verbatim>\<open>component_lock_\<close>, and so do the two critical sections of \<^verbatim>\<open>Flush\<close>, in exclusive
  mode: between those sections, what other threads do to the tracker is a sequence of such
  calls, each one a step on the tracker. A step whose check fails ends the process.\<close>

datatype call =
    Call_Update txid_t rowid_t RowChangeList
  | Call_CollectStores
  | Call_NewDeltaIterator MvccSnapshot
  | Call_CheckRowDeleted rowid_t

fun run_call :: "env \<Rightarrow> tracker \<Rightarrow> call \<Rightarrow> fatal + tracker" where
  "run_call e t (Call_Update txid row_idx update) = Update t txid row_idx update"
| "run_call e t Call_CollectStores = Inr (fst (CollectStores t []))"
| "run_call e t (Call_NewDeltaIterator snap) = Inr (fst (NewDeltaIterator e t snap))"
| "run_call e t (Call_CheckRowDeleted row_idx) =
     (case CheckRowDeleted e t row_idx of Inl f \<Rightarrow> Inl f | Inr r \<Rightarrow> Inr t)"

fun run_calls :: "env \<Rightarrow> tracker \<Rightarrow> call list \<Rightarrow> fatal + tracker" where
  "run_calls e t [] = Inr t"
| "run_calls e t (c # cs) = (case run_call e t c of Inl f \<Rightarrow> Inl f | Inr t' \<Rightarrow> run_calls e t' cs)"

text \<open>A flush with the calls of other threads between its parts: \<open>before\<close> run after the
  swap and before the file is written, \<open>after\<close> once it is written and before the commit.\<close>

definition Flush_interleaved :: "env \<Rightarrow> tracker \<Rightarrow> call list \<Rightarrow> call list \<Rightarrow> fatal + status \<times> env \<times> tracker" where
  "Flush_interleaved e t before after =
     (case flush_swap t of
        None \<Rightarrow> Inr (OK, e, t)
      | Some (old_dms, count, t1) \<Rightarrow>
          (case run_calls e (LOG (LOG_INFO (''Flushing '' @ show_nat count @ '' deltas...'')) t1) before of
             Inl f \<Rightarrow> Inl f
           | Inr t2 \<Rightarrow>
               (case FlushDMS e t2 old_dms of
                  (e', t3, Inl s) \<Rightarrow> Inl (CheckFailed (''Failed to flush DMS: '' @ Status_ToString s))
                | (e', t3, Inr dfr) \<Rightarrow>
                    (case run_calls e' t3 after of
                       Inl f \<Rightarrow> Inl f
                     | Inr t4 \<Rightarrow>
                         (case flush_commit t4 old_dms dfr of
                            Inl f \<Rightarrow> Inl f
                          | Inr t5 \<Rightarrow> Inr (OK, e', t5))))))"

subsection \<open>Directory entries\<close>

text \<open>The entries of the rowset directory, as the loop of \<^verbatim>\<open>Open\<close> tells them apart: a hidden
  entry starts with a dot; a delta entry is not hidden and has the delta prefix, and
  \<open>delta_idx\<close> is the index its suffix parses to; an unknown entry is not hidden and has
  neither prefix. An entry is fine for \<^verbatim>\<open>Open\<close> unless it is a delta entry whose suffix does
  not parse or whose file does not open; \<open>open_entry\<close> is what one iteration of the loop does
  to the tracker for an entry that is fine. \<open>store_paths\<close> gives, for each slot of the store
  list, the path of the file its reader was opened on.\<close>

definition is_hidden :: "string \<Rightarrow> bool" where
  "is_hidden child = (child \<noteq> [] \<and> hd child = CHR ''.'')"

definition delta_entry :: "string \<Rightarrow> bool" where
  "delta_entry child = (\<not> is_hidden child \<and> TryStripPrefixString child kDeltaPrefix \<noteq> None)"

definition delta_idx :: "string \<Rightarrow> 32 word option" where
  "delta_idx child =
     (case TryStripPrefixString child kDeltaPrefix of None \<Rightarrow> None | Some suffix \<Rightarrow> safe_strtou32 suffix)"

definition unknown_entry :: "string \<Rightarrow> bool" where
  "unknown_entry child =
     (\<not> is_hidden child \<and> TryStripPrefixString child kDeltaPrefix = None
      \<and> TryStripPrefixString child kColumnPrefix = None)"

definition entry_ok :: "env \<Rightarrow> string \<Rightarrow> string \<Rightarrow> bool" where
  "entry_ok e dir child =
     (delta_entry child \<longrightarrow>
        delta_idx child \<noteq> None \<and> \<not> isl (DeltaFileReader_Open e (JoinPathSegments dir child)))"

definition open_entry :: "env \<Rightarrow> tracker \<Rightarrow> string \<Rightarrow> tracker" where
  "open_entry e t child =
     (if is_hidden child then t
      else if delta_entry child
        then add_delta_file t (JoinPathSegments (m_dir t) child)
               (projr (DeltaFileReader_Open e (JoinPathSegments (m_dir t) child))) (the (delta_idx child))
      else if unknown_entry child
        then LOG (LOG_WARNING (''ignoring unknown file: '' @ JoinPathSegments (m_dir t) child)) t
      else t)"

fun path_of :: "tracker \<Rightarrow> store_ref \<Rightarrow> string" where
  "path_of t (FileStore a) = dfr_path (file_heap t a)"
| "path_of t (MemStore a) = []"

definition store_paths :: "tracker \<Rightarrow> string list" where
  "store_paths t = map (path_of t) (m_delta_stores t)"

subsection \<open>Concrete inputs\<close>

definition no_faults :: "string list \<Rightarrow> (string \<times> Mutation list) list \<Rightarrow> env" where
  "no_faults listing fs =
     \<lparr>children = (\<lambda>_. Inr listing), files = map_of fs, read_fault = Map.empty, write_fault = Map.empty\<rparr>"

definition env0 :: env where
  "env0 = no_faults [] []"

definition one_update :: tracker where
  "one_update =
     (DeltaTracker ''rs'' 10)\<lparr>mem_heap :=
        (\<lambda>_. [])(0 := [\<lparr>mut_row = 3, mut_txid = 1, mut_change = ColumnUpdates [(0, 5)]\<rparr>])\<rparr>"

definition upd :: "rowid_t \<Rightarrow> txid_t \<Rightarrow> nat \<Rightarrow> int \<Rightarrow> Mutation" where
  "upd row_idx txid col v = \<lparr>mut_row = row_idx, mut_txid = txid, mut_change = ColumnUpdates [(col, v)]\<rparr>"

definition del :: "rowid_t \<Rightarrow> txid_t \<Rightarrow> Mutation" where
  "del row_idx txid = \<lparr>mut_row = row_idx, mut_txid = txid, mut_change = RowDelete\<rparr>"

text \<open>A tracker of ten rows after two flushes: two delta files and the active store.\<close>

definition two_files :: "Mutation list \<Rightarrow> Mutation list \<Rightarrow> Mutation list \<Rightarrow> tracker" where
  "two_files f0 f1 active =
     \<lparr>m_dir = ''rs'', m_num_rows = 10, m_open = False, m_next_deltafile_idx = 2,
      m_dms = 2, m_delta_stores = [FileStore 0, FileStore 1],
      mem_heap = (\<lambda>_. [])(2 := active),
      file_heap = (\<lambda>_. \<lparr>dfr_path = [], dfr_muts = []\<rparr>)
        (0 := \<lparr>dfr_path = ''rs/delta_0'', dfr_muts = f0\<rparr>, 1 := \<lparr>dfr_path = ''rs/delta_1'', dfr_muts = f1\<rparr>),
      next_addr = 3, log = []\<rparr>"

text \<open>An iterator made ready for a batch: \<^verbatim>\<open>Init\<close>, \<^verbatim>\<open>SeekToOrdinal\<close>, \<^verbatim>\<open>PrepareBatch\<close>.\<close>

definition prepared :: "DeltaIterator \<Rightarrow> rowid_t \<Rightarrow> nat \<Rightarrow> DeltaIterator" where
  "prepared it idx nrows = snd (PrepareBatch (snd (SeekToOrdinal (snd (Init it)) idx)) nrows)"

text \<open>Scenario D: file 0 sets column 1 of row 7 to 1, file 1 sets it to 2, the active store
  sets it to 3.\<close>

definition scenario_d :: tracker where
  "scenario_d = two_files [upd 7 1 1 1] [upd 7 2 1 2] [upd 7 3 1 3]"

definition scenario_d_iter :: DeltaIterator where
  "scenario_d_iter = prepared (snd (NewDeltaIterator env0 scenario_d (\<lambda>txid. True))) 0 10"

definition out_of_order :: tracker where
  "out_of_order = two_files [upd 7 5 1 1] [upd 7 6 1 2] [upd 7 2 1 3]"

definition out_of_order_iter :: DeltaIterator where
  "out_of_order_iter = prepared (snd (NewDeltaIterator env0 out_of_order (\<lambda>txid. True))) 0 10"

definition deleted_in_file :: tracker where
  "deleted_in_file = two_files [upd 4 1 0 9, del 4 2] [upd 6 3 0 1] [upd 5 4 1 2]"

definition calls_before :: "call list" where
  "calls_before = [Call_Update 2 4 RowDelete, Call_CollectStores]"

definition calls_after :: "call list" where
  "calls_after = [Call_CheckRowDeleted 4, Call_NewDeltaIterator (\<lambda>txid. True), Call_Update 3 5 RowDelete]"

text \<open>A rowset directory with three delta files, listed in the given order, and the same
  with a second file that cannot be read.\<close>

definition rowset_dir :: "string list \<Rightarrow> env" where
  "rowset_dir listing =
     no_faults listing
       [(''rs/delta_0'', [upd 7 1 1 1]), (''rs/delta_5'', [upd 7 2 1 2]), (''rs/delta_7'', [del 3 4])]"

definition corrupt_delta_5 :: "string list \<Rightarrow> env" where
  "corrupt_delta_5 listing = (rowset_dir listing)\<lparr>read_fault := [''rs/delta_5'' \<mapsto> Corruption ''rs/delta_5'']\<rparr>"

definition bad_listing :: "string list" where
  "bad_listing = [''delta_0'', ''.tmp'', ''junk'', ''delta_x'', ''delta_7'']"

subsection \<open>The values a store writes to a cell\<close>

text \<open>The values a change list gives to a column, in its order; the values the mutations
  of a list give to a column of a row; and the values the iterator of a store writes to a
  column of a row: those of the mutations of its window that its snapshot lets it see.\<close>

definition col_values :: "nat \<Rightarrow> RowChangeList \<Rightarrow> int list" where
  "col_values col ch =
     (case ch of RowDelete \<Rightarrow> [] | ColumnUpdates cvs \<Rightarrow> map snd (filter (\<lambda>cv. fst cv = col) cvs))"

definition row_values :: "nat \<Rightarrow> rowid_t \<Rightarrow> Mutation list \<Rightarrow> int list" where
  "row_values col row_idx ms =
     concat (map (\<lambda>m. col_values col (mut_change m)) (filter (\<lambda>m. mut_row m = row_idx) ms))"

definition row_updates :: "StoreIterator \<Rightarrow> nat \<Rightarrow> rowid_t \<Rightarrow> int list" where
  "row_updates it col row_idx = row_values col row_idx (visible_muts it)"

section \<open>Properties\<close>

lemmas eval_defs = Flush_def flush_swap_def flush_commit_def FlushDMS_def DMS_Count_def
  new_DeltaMemStore_def new_DeltaFileReader_def LOG_def stage_status_def write_file_def
  DeltaFileReader_Open_def GetDeltaPath_def JoinPathSegments_def kDeltaPrefix_def show_int_def
  show_nat.simps digit_char_def no_faults_def DeltaTracker_def Let_def

subsection \<open>Flush\<close>

lemma flush_swap_Some:
  assumes "DMS_Count (mem_heap t (m_dms t)) \<noteq> 0"
  shows "flush_swap t = Some (m_dms t, DMS_Count (mem_heap t (m_dms t)),
           t\<lparr>mem_heap := (mem_heap t)(next_addr t := []), next_addr := Suc (next_addr t),
             m_dms := next_addr t, m_delta_stores := m_delta_stores t @ [MemStore (m_dms t)]\<rparr>)"
  using assms by (simp add: flush_swap_def new_DeltaMemStore_def Let_def)

lemma flush_swap_stores:
  "flush_swap t = Some (old_dms, count, t1) \<Longrightarrow>
     old_dms = m_dms t \<and> m_delta_stores t1 = m_delta_stores t @ [MemStore old_dms]"
  by (auto simp: flush_swap_def Let_def new_DeltaMemStore_def split: if_splits)

lemma flush_swap_dms:
  "flush_swap t = Some (old_dms, count, t1) \<Longrightarrow> m_dms t1 = next_addr t \<and> next_addr t1 = Suc (next_addr t)"
  by (auto simp: flush_swap_def Let_def new_DeltaMemStore_def split: if_splits)

lemma FlushDMS_Inr:
  assumes "FlushDMS e t old = (e', t', Inr dfr)"
  shows "e' = write_file e (GetDeltaPath (m_dir t) (sint (m_next_deltafile_idx t))) (mem_heap t old)
       \<and> dfr = next_addr t
       \<and> m_delta_stores t' = m_delta_stores t \<and> m_dms t' = m_dms t \<and> mem_heap t' = mem_heap t
       \<and> m_dir t' = m_dir t \<and> m_num_rows t' = m_num_rows t
       \<and> m_next_deltafile_idx t' = m_next_deltafile_idx t + 1
       \<and> next_addr t' = Suc (next_addr t)
       \<and> file_heap t' = (file_heap t)(next_addr t :=
            \<lparr>dfr_path = GetDeltaPath (m_dir t) (sint (m_next_deltafile_idx t)), dfr_muts = mem_heap t old\<rparr>)"
  using assms
  by (auto simp: FlushDMS_def Let_def LOG_def new_DeltaFileReader_def DeltaFileReader_Open_def write_file_def
           split: option.splits sum.splits prod.splits if_splits)

lemma FlushDMS_frame:
  "FlushDMS e t old = (e', t', r) \<Longrightarrow>
     m_delta_stores t' = m_delta_stores t \<and> m_dms t' = m_dms t \<and> mem_heap t' = mem_heap t"
  by (auto simp: FlushDMS_def Let_def LOG_def new_DeltaFileReader_def
           split: option.splits sum.splits prod.splits if_splits)

lemma flush_commit_ok:
  "m_delta_stores t4 = stores @ [MemStore old_dms] \<Longrightarrow>
     flush_commit t4 old_dms dfr = Inr (t4\<lparr>m_delta_stores := stores @ [FileStore dfr]\<rparr>)"
  by (simp add: flush_commit_def Let_def nth_append)

text \<open>
  \<^bold>\<open>Claim C1.\<close> When the active store holds at least one mutation (and was allocated, as
  the last subsection shows it always is), a flush that returns has returned OK,
  and: its swap captured the active store, installed a newly allocated, empty store as the
  active one and appended the captured store as the last element of the list; at the end
  the active store is that new, empty one, the list is the old list followed by one
  file-backed store, a reader of the newly written file \<^verbatim>\<open>delta_<next index>\<close>, which holds the
  captured mutations, as the file itself does; the list has grown by exactly one.
\<close>

theorem flush_replaces_dms_by_file:
  assumes nonempty: "DMS_Count (mem_heap t (m_dms t)) \<noteq> 0"
      and alloc: "m_dms t < next_addr t"
      and ok: "Flush e t = Inr (s, e', t')"
  shows "s = OK
       \<and> (\<exists>count t1. flush_swap t = Some (m_dms t, count, t1)
             \<and> m_dms t1 = next_addr t \<and> mem_heap t1 (m_dms t1) = []
             \<and> m_delta_stores t1 = m_delta_stores t @ [MemStore (m_dms t)])
       \<and> m_dms t' = next_addr t \<and> m_dms t' \<noteq> m_dms t \<and> mem_heap t' (m_dms t') = []
       \<and> (\<exists>a. m_delta_stores t' = m_delta_stores t @ [FileStore a]
             \<and> file_heap t' a =
                 \<lparr>dfr_path = GetDeltaPath (m_dir t) (sint (m_next_deltafile_idx t)),
                  dfr_muts = mem_heap t (m_dms t)\<rparr>
             \<and> files e' (GetDeltaPath (m_dir t) (sint (m_next_deltafile_idx t))) = Some (mem_heap t (m_dms t)))
       \<and> length (m_delta_stores t') = length (m_delta_stores t) + 1"
proof -
  let ?t1 = "t\<lparr>mem_heap := (mem_heap t)(next_addr t := []), next_addr := Suc (next_addr t),
             m_dms := next_addr t, m_delta_stores := m_delta_stores t @ [MemStore (m_dms t)]\<rparr>"
  let ?count = "DMS_Count (mem_heap t (m_dms t))"
  let ?t2 = "LOG (LOG_INFO (''Flushing '' @ show_nat ?count @ '' deltas...'')) ?t1"
  have swap: "flush_swap t = Some (m_dms t, ?count, ?t1)"
    by (rule flush_swap_Some [OF nonempty])
  obtain e2 t3 r where fd: "FlushDMS e ?t2 (m_dms t) = (e2, t3, r)"
    by (cases "FlushDMS e ?t2 (m_dms t)") auto
  from ok swap fd obtain dfr where r: "r = Inr dfr"
    by (cases r) (auto simp: Flush_def)
  note F = FlushDMS_Inr [OF fd [unfolded r]]
  from alloc have ne: "m_dms t \<noteq> next_addr t" by simp
  from F have stores3: "m_delta_stores t3 = m_delta_stores t @ [MemStore (m_dms t)]"
    by (simp add: LOG_def)
  from ok swap fd r stores3
  have t': "t' = t3\<lparr>m_delta_stores := m_delta_stores t @ [FileStore dfr]\<rparr>" and s: "s = OK" and e': "e' = e2"
    by (auto simp: Flush_def flush_commit_def split: if_splits)
  from F ne have heap: "mem_heap t3 (next_addr t) = []" "mem_heap t3 (m_dms t) = mem_heap t (m_dms t)"
    by (simp_all add: LOG_def)
  from F ne have fh: "file_heap t3 dfr =
      \<lparr>dfr_path = GetDeltaPath (m_dir t) (sint (m_next_deltafile_idx t)), dfr_muts = mem_heap t (m_dms t)\<rparr>"
    by (simp add: LOG_def)
  from F ne have fs: "files e2 (GetDeltaPath (m_dir t) (sint (m_next_deltafile_idx t))) = Some (mem_heap t (m_dms t))"
    by (simp add: LOG_def write_file_def)
  from F have dms3: "m_dms t3 = next_addr t" by (simp add: LOG_def)
  show ?thesis
    using swap s t' e' heap fh fs dms3 ne by simp
qed

theorem flush_replaces_dms_by_file_witness:
  "DMS_Count (mem_heap one_update (m_dms one_update)) \<noteq> 0 \<and> m_dms one_update < next_addr one_update
   \<and> (\<exists>e' t'. Flush env0 one_update = Inr (OK, e', t')
        \<and> m_dms t' = 1 \<and> mem_heap t' 1 = []
        \<and> (\<exists>a. m_delta_stores t' = [FileStore a]
             \<and> file_heap t' a = \<lparr>dfr_path = ''rs/delta_0'',
                  dfr_muts = [\<lparr>mut_row = 3, mut_txid = 1, mut_change = ColumnUpdates [(0, 5)]\<rparr>]\<rparr>))"
proof -
  have h1: "DMS_Count (mem_heap one_update (m_dms one_update)) \<noteq> 0"
    by (simp add: one_update_def eval_defs)
  have h2: "m_dms one_update < next_addr one_update"
    by (simp add: one_update_def eval_defs)
  have "\<exists>e' t'. Flush env0 one_update = Inr (OK, e', t')"
    by (simp add: one_update_def env0_def eval_defs)
  then obtain e' t' where h3: "Flush env0 one_update = Inr (OK, e', t')" by blast
  have c: "m_dms t' = 1 \<and> mem_heap t' 1 = []
        \<and> (\<exists>a. m_delta_stores t' = [FileStore a]
             \<and> file_heap t' a = \<lparr>dfr_path = ''rs/delta_0'',
                  dfr_muts = [\<lparr>mut_row = 3, mut_txid = 1, mut_change = ColumnUpdates [(0, 5)]\<rparr>]\<rparr>)"
    using flush_replaces_dms_by_file [OF h1 h2 h3]
    by (auto simp: one_update_def DeltaTracker_def GetDeltaPath_def JoinPathSegments_def kDeltaPrefix_def
          show_int_def show_nat.simps digit_char_def)
  show ?thesis using h1 h2 h3 c by blast
qed

text \<open>
  \<^bold>\<open>Claim C5.\<close> When the active store holds no mutation, a flush returns OK and changes
  nothing: the tracker (its store list, its next file index, its active store, the heaps)
  and the environment (no file is written) are the ones it was given.
\<close>

theorem flush_empty_is_noop:
  "DMS_Count (mem_heap t (m_dms t)) = 0 \<Longrightarrow> Flush e t = Inr (OK, e, t)"
  by (simp add: Flush_def flush_swap_def)

theorem flush_empty_is_noop_witness:
  "DMS_Count (mem_heap (DeltaTracker ''rs'' 10) (m_dms (DeltaTracker ''rs'' 10))) = 0
   \<and> Flush env0 (DeltaTracker ''rs'' 10) = Inr (OK, env0, DeltaTracker ''rs'' 10)"
proof -
  have h: "DMS_Count (mem_heap (DeltaTracker ''rs'' 10) (m_dms (DeltaTracker ''rs'' 10))) = 0"
    by (simp add: DeltaTracker_def DMS_Count_def)
  from flush_empty_is_noop [OF h, of env0] h show ?thesis by simp
qed

subsection \<open>CollectStores and Update\<close>

text \<open>
  \<^bold>\<open>Claim C6.\<close> \<^verbatim>\<open>CollectStores\<close> returns, whatever the vector held before, the store list
  in its order followed by the active store as the last element, and the tracker as it was.
\<close>

theorem collect_stores_list_then_dms:
  "CollectStores t deltas = (t, m_delta_stores t @ [MemStore (m_dms t)])"
  by (simp add: CollectStores_def)

text \<open>
  \<^bold>\<open>Claim C10.\<close> For a row index below the row count, \<^verbatim>\<open>Update\<close> returns a tracker that
  differs from the one it was given only in the content of the object the active-store
  handle points to, which has the mutation inserted: the store list, the next file index
  and the handle of the active store are unchanged.
\<close>

theorem update_changes_only_dms_content:
  assumes "row_idx < m_num_rows t"
  shows "\<exists>t'. Update t txid row_idx update = Inr t'
       \<and> m_delta_stores t' = m_delta_stores t
       \<and> m_next_deltafile_idx t' = m_next_deltafile_idx t
       \<and> m_dms t' = m_dms t
       \<and> mem_heap t' (m_dms t) = DMS_Update (mem_heap t (m_dms t)) txid row_idx update
       \<and> t' = t\<lparr>mem_heap := (mem_heap t)(m_dms t := mem_heap t' (m_dms t))\<rparr>"
  using assms by (simp add: Update_def)

theorem update_changes_only_dms_content_witness:
  "(3::nat) < m_num_rows (DeltaTracker ''rs'' 10)
   \<and> (\<exists>t'. Update (DeltaTracker ''rs'' 10) 1 3 (ColumnUpdates [(0, 5)]) = Inr t'
        \<and> m_delta_stores t' = [] \<and> m_next_deltafile_idx t' = 0 \<and> m_dms t' = 0
        \<and> mem_heap t' 0 = [\<lparr>mut_row = 3, mut_txid = 1, mut_change = ColumnUpdates [(0, 5)]\<rparr>])"
proof -
  have h: "(3::nat) < m_num_rows (DeltaTracker ''rs'' 10)"
    by (simp add: DeltaTracker_def)
  from update_changes_only_dms_content [OF h, of 1 "ColumnUpdates [(0, 5)]"] h show ?thesis
    by (auto simp: DeltaTracker_def DMS_Update_def)
qed

subsection \<open>A flush among the calls of other threads\<close>

lemma Flush_interleaved_Nil: "Flush_interleaved e t [] [] = Flush e t"
  by (simp add: Flush_interleaved_def Flush_def Let_def split: option.splits prod.splits sum.splits)

lemma run_call_frame:
  assumes "run_call e t c = Inr t'"
  shows "m_delta_stores t' = m_delta_stores t \<and> m_dms t' = m_dms t
       \<and> m_next_deltafile_idx t' = m_next_deltafile_idx t \<and> next_addr t' = next_addr t
       \<and> file_heap t' = file_heap t \<and> (\<forall>a. a \<noteq> m_dms t \<longrightarrow> mem_heap t' a = mem_heap t a)"
  using assms
  by (cases c)
     (auto simp: Update_def CollectStores_def NewDeltaIterator_def Let_def split: if_splits sum.splits)

lemma run_calls_frame:
  assumes "run_calls e t cs = Inr t'"
  shows "m_delta_stores t' = m_delta_stores t \<and> m_dms t' = m_dms t
       \<and> m_next_deltafile_idx t' = m_next_deltafile_idx t \<and> next_addr t' = next_addr t
       \<and> file_heap t' = file_heap t \<and> (\<forall>a. a \<noteq> m_dms t \<longrightarrow> mem_heap t' a = mem_heap t a)"
  using assms
proof (induction cs arbitrary: t)
  case Nil
  then show ?case by simp
next
  case (Cons c cs)
  from Cons.prems obtain t1 where c: "run_call e t c = Inr t1" and cs: "run_calls e t1 cs = Inr t'"
    by (auto split: sum.splits)
  from run_call_frame [OF c] Cons.IH [OF cs] show ?case by simp
qed

lemma run_calls_fatal:
  "run_calls e t cs = Inl f \<Longrightarrow> f = CheckFailed ''row_idx < num_rows_''"
proof (induction cs arbitrary: t)
  case Nil
  then show ?case by simp
next
  case (Cons c cs)
  show ?case
  proof (cases "run_call e t c")
    case (Inl g)
    with Cons.prems have "f = g" by simp
    with Inl show ?thesis
      by (cases c) (auto simp: Update_def CheckRowDeleted_def split: if_splits sum.splits)
  next
    case (Inr t1)
    with Cons.prems have "run_calls e t1 cs = Inl f" by simp
    then show ?thesis by (rule Cons.IH)
  qed
qed

lemma commit_stores:
  assumes swap: "flush_swap t = Some (old_dms, count, t1)"
      and before: "run_calls e (LOG (LOG_INFO (''Flushing '' @ show_nat count @ '' deltas...'')) t1) before = Inr t2"
      and flushed: "FlushDMS e t2 old_dms = (e', t3, r)"
      and after: "run_calls e' t3 after = Inr t4"
  shows "m_delta_stores t4 = m_delta_stores t @ [MemStore old_dms]"
proof -
  from flush_swap_stores [OF swap] have "m_delta_stores t1 = m_delta_stores t @ [MemStore old_dms]"
    by simp
  with run_calls_frame [OF before] have "m_delta_stores t2 = m_delta_stores t @ [MemStore old_dms]"
    by (simp add: LOG_def)
  with FlushDMS_frame [OF flushed] have "m_delta_stores t3 = m_delta_stores t @ [MemStore old_dms]"
    by simp
  with run_calls_frame [OF after] show ?thesis by simp
qed

text \<open>
  \<^bold>\<open>Claim C8.\<close> With one flush at a time, whatever calls of \<^verbatim>\<open>Update\<close>,
  \<^verbatim>\<open>CollectStores\<close>, \<^verbatim>\<open>NewDeltaIterator\<close> and \<^verbatim>\<open>CheckRowDeleted\<close> other threads make
  between the swap and the commit, the commit's verification does not fail: the flush never
  ends on the \<^verbatim>\<open>CHECK_EQ\<close> of the commit nor on an out-of-range slot, and when the swap, the
  interleaved calls and the write have gone through, the store list is not empty at the
  commit, its last slot is still the store the swap captured, and the commit and the flush
  succeed.
\<close>

theorem commit_check_cannot_fail:
  "Flush_interleaved e t before after \<noteq> Inl OutOfRange
   \<and> Flush_interleaved e t before after
        \<noteq> Inl (CheckFailed ''Another thread modified the delta store list during flush'')
   \<and> (flush_swap t = Some (old_dms, count, t1) \<longrightarrow>
      run_calls e (LOG (LOG_INFO (''Flushing '' @ show_nat count @ '' deltas...'')) t1) before = Inr t2 \<longrightarrow>
      FlushDMS e t2 old_dms = (e', t3, Inr dfr) \<longrightarrow>
      run_calls e' t3 after = Inr t4 \<longrightarrow>
        m_delta_stores t4 \<noteq> []
        \<and> m_delta_stores t4 ! (length (m_delta_stores t4) - 1) = MemStore old_dms
        \<and> (\<exists>t5. flush_commit t4 old_dms dfr = Inr t5)
        \<and> (\<exists>t5. Flush_interleaved e t before after = Inr (OK, e', t5)))"
proof -
  have never: "Flush_interleaved e t before after = Inl f \<Longrightarrow>
      f = CheckFailed ''row_idx < num_rows_'' \<or> (\<exists>s. f = CheckFailed (''Failed to flush DMS: '' @ s))" for f
  proof -
    assume fl: "Flush_interleaved e t before after = Inl f"
    show ?thesis
    proof (cases "flush_swap t")
      case None
      with fl show ?thesis by (simp add: Flush_interleaved_def)
    next
      case (Some sw)
      obtain old cnt u1 where sw: "sw = (old, cnt, u1)" by (cases sw) auto
      let ?u1 = "LOG (LOG_INFO (''Flushing '' @ show_nat cnt @ '' deltas...'')) u1"
      show ?thesis
      proof (cases "run_calls e ?u1 before")
        case (Inl g)
        with fl Some sw have "f = g" by (simp add: Flush_interleaved_def)
        with run_calls_fatal [OF Inl] show ?thesis by simp
      next
        case (Inr u2)
        obtain e2 u3 r where fd: "FlushDMS e u2 old = (e2, u3, r)"
          by (cases "FlushDMS e u2 old") auto
        show ?thesis
        proof (cases r)
          case (Inl s)
          with fl Some sw Inr fd show ?thesis by (auto simp: Flush_interleaved_def)
        next
          case r: (Inr dfr2)
          show ?thesis
          proof (cases "run_calls e2 u3 after")
            case (Inl g)
            with fl Some sw Inr fd r have "f = g" by (simp add: Flush_interleaved_def)
            with run_calls_fatal [OF Inl] show ?thesis by simp
          next
            case u4: (Inr u4)
            from commit_stores [OF Some [unfolded sw] Inr fd u4]
            have "flush_commit u4 old dfr2 = Inr (u4\<lparr>m_delta_stores := m_delta_stores t @ [FileStore dfr2]\<rparr>)"
              by (rule flush_commit_ok)
            with fl Some sw Inr fd r u4 show ?thesis by (simp add: Flush_interleaved_def)
          qed
        qed
      qed
    qed
  qed
  have a: "Flush_interleaved e t before after \<noteq> Inl OutOfRange"
    using never [of OutOfRange] by auto
  have b: "Flush_interleaved e t before after
        \<noteq> Inl (CheckFailed ''Another thread modified the delta store list during flush'')"
    using never [of "CheckFailed ''Another thread modified the delta store list during flush''"] by auto
  have c: "m_delta_stores t4 \<noteq> []
        \<and> m_delta_stores t4 ! (length (m_delta_stores t4) - 1) = MemStore old_dms
        \<and> (\<exists>t5. flush_commit t4 old_dms dfr = Inr t5)
        \<and> (\<exists>t5. Flush_interleaved e t before after = Inr (OK, e', t5))"
    if swap: "flush_swap t = Some (old_dms, count, t1)"
      and before: "run_calls e (LOG (LOG_INFO (''Flushing '' @ show_nat count @ '' deltas...'')) t1) before = Inr t2"
      and flushed: "FlushDMS e t2 old_dms = (e', t3, Inr dfr)"
      and after: "run_calls e' t3 after = Inr t4"
  proof -
    note st = commit_stores [OF swap before flushed after]
    note fc = flush_commit_ok [OF st, of dfr]
    from swap before flushed after fc
    have "Flush_interleaved e t before after
            = Inr (OK, e', t4\<lparr>m_delta_stores := m_delta_stores t @ [FileStore dfr]\<rparr>)"
      by (simp add: Flush_interleaved_def)
    with st fc show ?thesis by (simp add: nth_append)
  qed
  from a b c show ?thesis by blast
qed


theorem commit_check_cannot_fail_witness:
  "\<exists>old_dms count t1 t2 e' t3 dfr t4.
      flush_swap one_update = Some (old_dms, count, t1)
    \<and> run_calls env0 (LOG (LOG_INFO (''Flushing '' @ show_nat count @ '' deltas...'')) t1) calls_before = Inr t2
    \<and> FlushDMS env0 t2 old_dms = (e', t3, Inr dfr)
    \<and> run_calls e' t3 calls_after = Inr t4
    \<and> m_delta_stores t4 \<noteq> []
    \<and> m_delta_stores t4 ! (length (m_delta_stores t4) - 1) = MemStore old_dms
    \<and> (\<exists>t5. flush_commit t4 old_dms dfr = Inr t5)
    \<and> (\<exists>t5. Flush_interleaved env0 one_update calls_before calls_after = Inr (OK, e', t5))"
proof -
  define t1 where "t1 = snd (snd (the (flush_swap one_update)))"
  define t2 where "t2 = projr (run_calls env0 (LOG (LOG_INFO (''Flushing '' @ show_nat 1 @ '' deltas...'')) t1) calls_before)"
  define e' where "e' = fst (FlushDMS env0 t2 0)"
  define t3 where "t3 = fst (snd (FlushDMS env0 t2 0))"
  define t4 where "t4 = projr (run_calls e' t3 calls_after)"
  have h1: "flush_swap one_update = Some (0, 1, t1)"
    unfolding t1_def by (simp add: one_update_def eval_defs)
  have h2: "run_calls env0 (LOG (LOG_INFO (''Flushing '' @ show_nat 1 @ '' deltas...'')) t1) calls_before = Inr t2"
    unfolding t2_def t1_def
    by (simp add: one_update_def eval_defs calls_before_def Update_def CollectStores_def)
  have h3: "FlushDMS env0 t2 0 = (e', t3, Inr 2)"
    unfolding e'_def t3_def t2_def t1_def
    by (simp add: one_update_def env0_def eval_defs calls_before_def Update_def CollectStores_def)
  have h4: "run_calls e' t3 calls_after = Inr t4"
    unfolding t4_def e'_def t3_def t2_def t1_def
    by (simp add: one_update_def env0_def eval_defs calls_before_def calls_after_def Update_def
          CollectStores_def CheckRowDeleted_def DMS_CheckRowDeleted_def DMS_Update_def has_delete_def
          DeltaFileReader_CheckRowDeleted_def NewDeltaIterator_def key_le_def)
  from commit_check_cannot_fail [of env0 one_update calls_before calls_after 0 1 t1 t2 e' t3 2 t4] h1 h2 h3 h4
  show ?thesis by blast
qed


text \<open>The verification is not idle: when a second flush swaps between the swap and the
  commit of the first, the commit of the first fails its \<^verbatim>\<open>CHECK_EQ\<close>.\<close>

lemma second_flush_breaks_commit:
  assumes first: "flush_swap t = Some (old1, count1, t1)"
      and calls: "run_calls e t1 cs = Inr t2"
      and second: "flush_swap t2 = Some (old2, count2, t3)"
      and alloc: "m_dms t < next_addr t"
  shows "flush_commit t3 old1 dfr
           = Inl (CheckFailed ''Another thread modified the delta store list during flush'')"
proof -
  from flush_swap_stores [OF first] flush_swap_dms [OF first]
  have s1: "m_delta_stores t1 = m_delta_stores t @ [MemStore old1]" and o1: "old1 = m_dms t"
    and d1: "m_dms t1 = next_addr t"
    by simp_all
  from run_calls_frame [OF calls] s1 d1
  have s2: "m_delta_stores t2 = m_delta_stores t @ [MemStore old1]" and d2: "m_dms t2 = next_addr t"
    by simp_all
  from flush_swap_stores [OF second] s2 d2
  have s3: "m_delta_stores t3 = (m_delta_stores t @ [MemStore old1]) @ [MemStore old2]"
    and o2: "old2 = next_addr t"
    by simp_all
  from o1 o2 alloc have "old2 \<noteq> old1" by simp
  with s3 show ?thesis by (simp add: flush_commit_def Let_def nth_append)
qed

subsection \<open>CheckRowDeleted\<close>

lemma DeltaStore_CheckRowDeleted_stores [simp]:
  "DeltaStore_CheckRowDeleted e (t\<lparr>m_delta_stores := stores'\<rparr>) ds row_idx
     = DeltaStore_CheckRowDeleted e t ds row_idx"
  by (cases ds) simp_all

lemma CheckRowDeleted_loop_stores [simp]:
  "CheckRowDeleted_loop e (t\<lparr>m_delta_stores := stores'\<rparr>) row_idx dss
     = CheckRowDeleted_loop e t row_idx dss"
  by (induction dss) (simp_all split: sum.splits)

lemma CheckRowDeleted_as_loop:
  "row_idx < m_num_rows t \<Longrightarrow>
     CheckRowDeleted e t row_idx
       = Inr (CheckRowDeleted_loop e t row_idx (MemStore (m_dms t) # rev (m_delta_stores t)))"
  by (simp add: CheckRowDeleted_def DMS_CheckRowDeleted_def)

lemma loop_result:
  "CheckRowDeleted_loop e t row_idx dss = (OK, deleted) \<Longrightarrow>
     deleted = (\<exists>ds\<in>set dss. DeltaStore_CheckRowDeleted e t ds row_idx = Inr True)"
  by (induction dss) (auto split: sum.splits if_splits)

lemma loop_total:
  "\<forall>ds\<in>set dss. \<exists>b. DeltaStore_CheckRowDeleted e t ds row_idx = Inr b \<Longrightarrow>
     \<exists>d. CheckRowDeleted_loop e t row_idx dss = (OK, d)"
  by (induction dss) (auto split: sum.splits)

lemma loop_first:
  "\<forall>p\<in>set pre. DeltaStore_CheckRowDeleted e t p row_idx = Inr False \<Longrightarrow>
   DeltaStore_CheckRowDeleted e t ds row_idx = Inr True \<Longrightarrow>
     CheckRowDeleted_loop e t row_idx (pre @ ds # post) = (OK, True)"
  by (induction pre) auto

text \<open>
  \<^bold>\<open>Claim C7.\<close> For a row index below the row count: a check that returns OK returns true
  exactly when the active store or a store of the list reports the row deleted; the check
  returns OK when no store of the list fails; the stores are consulted with the active
  store first, and the check returns true at the first one that reports the row deleted,
  those before it having answered false; and a list with the same stores in another
  order gives the same boolean.
\<close>

theorem row_deleted_iff_some_store:
  assumes "row_idx < m_num_rows t"
  shows "(CheckRowDeleted e t row_idx = Inr (OK, deleted) \<longrightarrow>
            deleted = (\<exists>ds\<in>set (MemStore (m_dms t) # m_delta_stores t).
                          DeltaStore_CheckRowDeleted e t ds row_idx = Inr True))
       \<and> ((\<forall>ds\<in>set (m_delta_stores t). \<exists>b. DeltaStore_CheckRowDeleted e t ds row_idx = Inr b) \<longrightarrow>
            (\<exists>d. CheckRowDeleted e t row_idx = Inr (OK, d)))
       \<and> (MemStore (m_dms t) # rev (m_delta_stores t) = pre @ ds # post \<longrightarrow>
            (\<forall>p\<in>set pre. DeltaStore_CheckRowDeleted e t p row_idx = Inr False) \<longrightarrow>
            DeltaStore_CheckRowDeleted e t ds row_idx = Inr True \<longrightarrow>
            CheckRowDeleted e t row_idx = Inr (OK, True))
       \<and> (set stores' = set (m_delta_stores t) \<longrightarrow>
            CheckRowDeleted e t row_idx = Inr (OK, deleted) \<longrightarrow>
            CheckRowDeleted e (t\<lparr>m_delta_stores := stores'\<rparr>) row_idx = Inr (OK, deleted') \<longrightarrow>
            deleted' = deleted)"
proof -
  note L = CheckRowDeleted_as_loop [OF assms, of e]
  have L': "CheckRowDeleted e (t\<lparr>m_delta_stores := stores'\<rparr>) row_idx
       = Inr (CheckRowDeleted_loop e t row_idx (MemStore (m_dms t) # rev stores'))"
    using assms by (simp add: CheckRowDeleted_def DMS_CheckRowDeleted_def)
  have a: "deleted = (\<exists>ds\<in>set (MemStore (m_dms t) # m_delta_stores t).
                          DeltaStore_CheckRowDeleted e t ds row_idx = Inr True)"
    if "CheckRowDeleted e t row_idx = Inr (OK, deleted)"
  proof -
    from that L have "CheckRowDeleted_loop e t row_idx (MemStore (m_dms t) # rev (m_delta_stores t)) = (OK, deleted)"
      by simp
    from loop_result [OF this] show ?thesis by simp
  qed
  have b: "\<exists>d. CheckRowDeleted e t row_idx = Inr (OK, d)"
    if "\<forall>ds\<in>set (m_delta_stores t). \<exists>b. DeltaStore_CheckRowDeleted e t ds row_idx = Inr b"
  proof -
    from that have "\<forall>ds\<in>set (MemStore (m_dms t) # rev (m_delta_stores t)).
        \<exists>b. DeltaStore_CheckRowDeleted e t ds row_idx = Inr b"
      by (simp add: DMS_CheckRowDeleted_def)
    from loop_total [OF this] L show ?thesis by simp
  qed
  have c: "CheckRowDeleted e t row_idx = Inr (OK, True)"
    if "MemStore (m_dms t) # rev (m_delta_stores t) = pre @ ds # post"
      and "\<forall>p\<in>set pre. DeltaStore_CheckRowDeleted e t p row_idx = Inr False"
      and "DeltaStore_CheckRowDeleted e t ds row_idx = Inr True"
    using L that(1) loop_first [OF that(2) that(3), of post] by simp
  have d: "deleted' = deleted"
    if eq: "set stores' = set (m_delta_stores t)"
      and r: "CheckRowDeleted e t row_idx = Inr (OK, deleted)"
      and r': "CheckRowDeleted e (t\<lparr>m_delta_stores := stores'\<rparr>) row_idx = Inr (OK, deleted')"
  proof -
    from r' L' have "CheckRowDeleted_loop e t row_idx (MemStore (m_dms t) # rev stores') = (OK, deleted')"
      by simp
    from loop_result [OF this] a [OF r] eq show ?thesis by simp
  qed
  from a b c d show ?thesis by blast
qed

theorem row_deleted_iff_some_store_witness:
  "(4::nat) < m_num_rows deleted_in_file
   \<and> CheckRowDeleted env0 deleted_in_file 4 = Inr (OK, True)
   \<and> True = (\<exists>ds\<in>set (MemStore (m_dms deleted_in_file) # m_delta_stores deleted_in_file).
                DeltaStore_CheckRowDeleted env0 deleted_in_file ds 4 = Inr True)
   \<and> CheckRowDeleted env0 (deleted_in_file\<lparr>m_delta_stores := [FileStore 1, FileStore 0]\<rparr>) 4 = Inr (OK, True)"
proof -
  have h: "(4::nat) < m_num_rows deleted_in_file"
    by (simp add: deleted_in_file_def two_files_def)
  have r: "CheckRowDeleted env0 deleted_in_file 4 = Inr (OK, True)"
    by (simp add: deleted_in_file_def two_files_def env0_def no_faults_def CheckRowDeleted_def
          DMS_CheckRowDeleted_def DeltaFileReader_CheckRowDeleted_def has_delete_def upd_def del_def)
  have r': "CheckRowDeleted env0 (deleted_in_file\<lparr>m_delta_stores := [FileStore 1, FileStore 0]\<rparr>) 4 = Inr (OK, True)"
    by (simp add: deleted_in_file_def two_files_def env0_def no_faults_def CheckRowDeleted_def
          DMS_CheckRowDeleted_def DeltaFileReader_CheckRowDeleted_def has_delete_def upd_def del_def)
  from row_deleted_iff_some_store [OF h, of env0 True] r r' h show ?thesis by blast
qed


subsection \<open>The merging iterator\<close>

lemmas iter_defs = NewDeltaIterator_def CollectStores_def DeltaIteratorMerger_Create_def
  Store_Init_def Store_SeekToOrdinal_def Store_PrepareBatch_def Store_ApplyUpdates_def
  Store_CollectMutations_def visible_muts_def batch_muts_def in_batch_def apply_mutation_def
  prepared_def two_files_def upd_def del_def env0_def no_faults_def Let_def

lemma length_apply_cols [simp]: "length (apply_cols col j cvs dst) = length dst"
  by (induction cvs arbitrary: dst) auto

lemma apply_cols_nth:
  "i < length dst \<Longrightarrow>
     apply_cols col j cvs dst ! i
       = (if j = i \<and> col_values col (ColumnUpdates cvs) \<noteq> []
          then last (col_values col (ColumnUpdates cvs)) else dst ! i)"
proof (induction cvs arbitrary: dst)
  case Nil
  then show ?case by (simp add: col_values_def)
next
  case (Cons cv cvs)
  obtain c v where cv: "cv = (c, v)" by (cases cv)
  from Cons.prems have len: "i < length (if c = col then dst[j := v] else dst)" by simp
  show ?case
    unfolding cv apply_cols.simps Cons.IH [OF len]
    using Cons.prems by (auto simp: col_values_def)
qed

lemma length_apply_mutation [simp]: "length (apply_mutation cur col dst m) = length dst"
  by (simp add: apply_mutation_def split: RowChangeList.splits)

lemma apply_mutation_nth:
  assumes "i < length dst" and "cur \<le> mut_row m"
  shows "apply_mutation cur col dst m ! i
       = (if mut_row m = cur + i \<and> col_values col (mut_change m) \<noteq> []
          then last (col_values col (mut_change m)) else dst ! i)"
proof (cases "mut_change m")
  case (ColumnUpdates cvs)
  from assms(2) have "(mut_row m - cur = i) = (mut_row m = cur + i)" by auto
  with ColumnUpdates apply_cols_nth [OF assms(1), of col "mut_row m - cur" cvs] show ?thesis
    by (simp add: apply_mutation_def)
next
  case RowDelete
  then show ?thesis by (simp add: apply_mutation_def col_values_def)
qed

lemma length_foldl_apply [simp]: "length (foldl (apply_mutation cur col) dst ms) = length dst"
  by (induction ms arbitrary: dst) auto

lemma foldl_apply_nth:
  assumes "i < length dst" and "\<forall>m\<in>set ms. cur \<le> mut_row m"
  shows "foldl (apply_mutation cur col) dst ms ! i
       = (if row_values col (cur + i) ms = [] then dst ! i else last (row_values col (cur + i) ms))"
  using assms
proof (induction ms arbitrary: dst)
  case Nil
  then show ?case by (simp add: row_values_def)
next
  case (Cons m ms)
  from Cons.prems have len: "i < length (apply_mutation cur col dst m)" and rest: "\<forall>m\<in>set ms. cur \<le> mut_row m"
    and m: "cur \<le> mut_row m"
    by simp_all
  have step: "apply_mutation cur col dst m ! i
       = (if mut_row m = cur + i \<and> col_values col (mut_change m) \<noteq> []
          then last (col_values col (mut_change m)) else dst ! i)"
    using Cons.prems(1) m by (rule apply_mutation_nth)
  have rv: "row_values col (cur + i) (m # ms)
       = (if mut_row m = cur + i then col_values col (mut_change m) else []) @ row_values col (cur + i) ms"
    by (simp add: row_values_def)
  show ?case
    unfolding foldl_Cons Cons.IH [OF len rest] step rv by simp
qed

lemma visible_muts_in_batch: "m \<in> set (visible_muts it) \<Longrightarrow> it_cur it \<le> mut_row m"
  by (simp add: visible_muts_def batch_muts_def in_batch_def)

lemma Store_ApplyUpdates_OK:
  assumes "Store_ApplyUpdates it col dst = (OK, dst')"
  shows "dst' = foldl (apply_mutation (it_cur it) col) dst (visible_muts it)"
  using assms by (simp add: Store_ApplyUpdates_def split: option.splits)

lemma Store_ApplyUpdates_nth:
  assumes ok: "Store_ApplyUpdates it col dst = (OK, dst')" and i: "i < length dst"
  shows "length dst' = length dst
       \<and> dst' ! i = (if row_updates it col (it_cur it + i) = [] then dst ! i
                     else last (row_updates it col (it_cur it + i)))"
proof -
  have "\<forall>m\<in>set (visible_muts it). it_cur it \<le> mut_row m"
    by (simp add: visible_muts_in_batch)
  from foldl_apply_nth [OF i this, of col] Store_ApplyUpdates_OK [OF ok] show ?thesis
    by (simp add: row_updates_def)
qed

lemma Merger_ApplyUpdates_foldl:
  "DeltaIteratorMerger_ApplyUpdates iters col dst = (OK, dst') \<Longrightarrow>
     dst' = foldl (\<lambda>d s. snd (Store_ApplyUpdates s col d)) dst iters"
proof (induction iters arbitrary: dst)
  case Nil
  then show ?case by simp
next
  case (Cons s iters)
  from Cons.prems obtain d where s: "Store_ApplyUpdates s col dst = (OK, d)"
    and r: "DeltaIteratorMerger_ApplyUpdates iters col d = (OK, dst')"
    by (auto split: prod.splits option.splits)
  from Cons.IH [OF r] s show ?case by simp
qed

lemma Merger_ApplyUpdates_append:
  "DeltaIteratorMerger_ApplyUpdates (xs @ ys) col dst = (OK, dst') \<Longrightarrow>
     \<exists>d. DeltaIteratorMerger_ApplyUpdates xs col dst = (OK, d)
        \<and> DeltaIteratorMerger_ApplyUpdates ys col d = (OK, dst')"
  by (induction xs arbitrary: dst) (auto split: prod.splits option.splits)

lemma Merger_ApplyUpdates_length:
  "DeltaIteratorMerger_ApplyUpdates iters col dst = (OK, dst') \<Longrightarrow> length dst' = length dst"
proof (induction iters arbitrary: dst)
  case Nil
  then show ?case by simp
next
  case (Cons s iters)
  from Cons.prems obtain d where s: "Store_ApplyUpdates s col dst = (OK, d)"
    and r: "DeltaIteratorMerger_ApplyUpdates iters col d = (OK, dst')"
    by (auto split: prod.splits option.splits)
  from Store_ApplyUpdates_OK [OF s] Cons.IH [OF r] show ?case by simp
qed

lemma Merger_ApplyUpdates_untouched:
  assumes "DeltaIteratorMerger_ApplyUpdates iters col dst = (OK, dst')"
      and "i < length dst"
      and "\<forall>n\<in>set iters. row_updates n col (it_cur n + i) = []"
  shows "dst' ! i = dst ! i"
  using assms
proof (induction iters arbitrary: dst)
  case Nil
  then show ?case by simp
next
  case (Cons s iters)
  from Cons.prems(1) obtain d where s: "Store_ApplyUpdates s col dst = (OK, d)"
    and r: "DeltaIteratorMerger_ApplyUpdates iters col d = (OK, dst')"
    by (auto split: prod.splits option.splits)
  note n = Store_ApplyUpdates_nth [OF s Cons.prems(2)]
  from n Cons.prems(2) have len: "i < length d" by simp
  from Cons.prems(3) have rest: "\<forall>n\<in>set iters. row_updates n col (it_cur n + i) = []" by simp
  from Cons.IH [OF r len rest] n Cons.prems(3) show ?case by simp
qed

text \<open>After a \<^verbatim>\<open>SeekToOrdinal\<close> that returned OK all the iterators are at the ordinal, and a
  \<^verbatim>\<open>PrepareBatch\<close> that returned OK leaves them there.\<close>

lemma Merger_SeekToOrdinal_cur:
  "DeltaIteratorMerger_SeekToOrdinal iters idx = (OK, iters') \<Longrightarrow> \<forall>x\<in>set iters'. it_cur x = idx"
proof (induction iters arbitrary: iters')
  case Nil
  then show ?case by simp
next
  case (Cons s iters)
  from Cons.prems obtain s' rest' where s: "Store_SeekToOrdinal s idx = (OK, s')"
    and r: "DeltaIteratorMerger_SeekToOrdinal iters idx = (OK, rest')" and i: "iters' = s' # rest'"
    by (auto split: prod.splits option.splits)
  from s have "it_cur s' = idx"
    by (auto simp: Store_SeekToOrdinal_def split: option.splits)
  with Cons.IH [OF r] i show ?case by simp
qed

lemma Merger_PrepareBatch_cur:
  "DeltaIteratorMerger_PrepareBatch iters nrows = (OK, iters') \<Longrightarrow>
     map it_cur iters' = map it_cur iters \<and> (\<forall>x\<in>set iters'. it_nrows x = nrows)"
proof (induction iters arbitrary: iters')
  case Nil
  then show ?case by simp
next
  case (Cons s iters)
  from Cons.prems obtain s' rest' where s: "Store_PrepareBatch s nrows = (OK, s')"
    and r: "DeltaIteratorMerger_PrepareBatch iters nrows = (OK, rest')" and i: "iters' = s' # rest'"
    by (auto split: prod.splits option.splits)
  from s have "it_cur s' = it_cur s \<and> it_nrows s' = nrows"
    by (auto simp: Store_PrepareBatch_def split: option.splits)
  with Cons.IH [OF r] i show ?case by simp
qed

lemma Create_iters:
  "iters_of (DeltaIteratorMerger_Create e t stores snap) = map (DeltaStore_NewDeltaIterator e t snap) stores"
proof (cases "length stores = 1")
  case True
  then obtain s where "stores = [s]" by (cases stores) auto
  then show ?thesis by (simp add: DeltaIteratorMerger_Create_def)
next
  case False
  then show ?thesis by (simp add: DeltaIteratorMerger_Create_def)
qed

text \<open>
  \<^bold>\<open>Claim C3.\<close> An \<^verbatim>\<open>ApplyUpdates\<close> that returns OK has applied the updates of each
  constituent iterator to the block, one store after the other in the order of the list,
  each on the block the one before left; the iterator the tracker makes has the stores of
  the list in their order, oldest first, and the active store last. So, for a row of the
  window, the cell holds the last value written by the newest store that updates this row
  and column. In scenario D the merged read of column 1 of row 7 is 3.
\<close>

theorem newest_store_update_wins:
  assumes ok: "ApplyUpdates it col dst = (OK, dst')"
  shows "dst' = foldl (\<lambda>d s. snd (Store_ApplyUpdates s col d)) dst (iters_of it)
       \<and> length dst' = length dst
       \<and> (iters_of it = older @ s # newer \<longrightarrow>
          (\<forall>x\<in>set (iters_of it). it_cur x = cur) \<longrightarrow>
          cur \<le> row_idx \<longrightarrow> row_idx - cur < length dst \<longrightarrow>
          row_updates s col row_idx \<noteq> [] \<longrightarrow>
          (\<forall>n\<in>set newer. row_updates n col row_idx = []) \<longrightarrow>
            dst' ! (row_idx - cur) = last (row_updates s col row_idx))
       \<and> iters_of (snd (NewDeltaIterator e t snap))
           = map (DeltaStore_NewDeltaIterator e t snap) (m_delta_stores t @ [MemStore (m_dms t)])"
proof -
  have m: "DeltaIteratorMerger_ApplyUpdates (iters_of it) col dst = (OK, dst')"
    using ok by (cases it) (simp_all split: prod.splits option.splits)
  have a: "dst' = foldl (\<lambda>d s. snd (Store_ApplyUpdates s col d)) dst (iters_of it)"
    by (rule Merger_ApplyUpdates_foldl [OF m])
  have b: "length dst' = length dst"
    by (rule Merger_ApplyUpdates_length [OF m])
  have c: "dst' ! (row_idx - cur) = last (row_updates s col row_idx)"
    if split: "iters_of it = older @ s # newer"
      and cur: "\<forall>x\<in>set (iters_of it). it_cur x = cur"
      and lo: "cur \<le> row_idx" and hi: "row_idx - cur < length dst"
      and wr: "row_updates s col row_idx \<noteq> []"
      and nw: "\<forall>n\<in>set newer. row_updates n col row_idx = []"
  proof -
    let ?i = "row_idx - cur"
    from lo have row: "cur + ?i = row_idx" by simp
    from m split obtain d1 where o: "DeltaIteratorMerger_ApplyUpdates older col dst = (OK, d1)"
      and r1: "DeltaIteratorMerger_ApplyUpdates (s # newer) col d1 = (OK, dst')"
      using Merger_ApplyUpdates_append [of older "s # newer" col dst dst'] by auto
    from r1 obtain d2 where s2: "Store_ApplyUpdates s col d1 = (OK, d2)"
      and r2: "DeltaIteratorMerger_ApplyUpdates newer col d2 = (OK, dst')"
      by (auto split: prod.splits option.splits)
    from Merger_ApplyUpdates_length [OF o] hi have i1: "?i < length d1" by simp
    from cur split have cs: "it_cur s = cur" and cn: "\<forall>n\<in>set newer. it_cur n = cur" by simp_all
    from Store_ApplyUpdates_nth [OF s2 i1] cs row wr
    have v: "d2 ! ?i = last (row_updates s col row_idx)" and i2: "?i < length d2"
      using i1 by simp_all
    from cn nw row have "\<forall>n\<in>set newer. row_updates n col (it_cur n + ?i) = []" by simp
    from Merger_ApplyUpdates_untouched [OF r2 i2 this] v show ?thesis by simp
  qed
  have d: "iters_of (snd (NewDeltaIterator e t snap))
           = map (DeltaStore_NewDeltaIterator e t snap) (m_delta_stores t @ [MemStore (m_dms t)])"
    by (simp add: NewDeltaIterator_def CollectStores_def Create_iters del: map_append)
  from a b c d show ?thesis by blast
qed


lemma scenario_d_iters:
  "iters_of scenario_d_iter =
     [\<lparr>it_muts = [upd 7 1 1 1], it_snap = (\<lambda>txid. True), it_fault = None, it_cur = 0, it_nrows = 10\<rparr>,
      \<lparr>it_muts = [upd 7 2 1 2], it_snap = (\<lambda>txid. True), it_fault = None, it_cur = 0, it_nrows = 10\<rparr>]
     @ \<lparr>it_muts = [upd 7 3 1 3], it_snap = (\<lambda>txid. True), it_fault = None, it_cur = 0, it_nrows = 10\<rparr> # []"
  by (simp add: scenario_d_iter_def scenario_d_def iter_defs)

theorem newest_store_update_wins_witness:
  "\<exists>dst'. ApplyUpdates scenario_d_iter 1 [0, 0, 0, 0, 0, 0, 0, 0, 0, 0] = (OK, dst')
     \<and> dst' ! 7 = 3
     \<and> dst' = [0, 0, 0, 0, 0, 0, 0, 3, 0, 0]"
proof -
  let ?dst = "[0, 0, 0, 0, 0, 0, 0, 0, 0, 0] :: int list"
  let ?dst' = "[0, 0, 0, 0, 0, 0, 0, 3, 0, 0] :: int list"
  let ?f0 = "\<lparr>it_muts = [upd 7 1 1 1], it_snap = (\<lambda>txid. True), it_fault = None, it_cur = 0, it_nrows = 10\<rparr>"
  let ?f1 = "\<lparr>it_muts = [upd 7 2 1 2], it_snap = (\<lambda>txid. True), it_fault = None, it_cur = 0, it_nrows = 10\<rparr>"
  let ?s = "\<lparr>it_muts = [upd 7 3 1 3], it_snap = (\<lambda>txid. True), it_fault = None, it_cur = 0, it_nrows = 10\<rparr>"
  have ok: "ApplyUpdates scenario_d_iter 1 ?dst = (OK, ?dst')"
    by (simp add: scenario_d_iter_def scenario_d_def iter_defs eval_nat_numeral)
  have its: "iters_of scenario_d_iter = [?f0, ?f1] @ ?s # []"
    by (rule scenario_d_iters)
  have cur: "\<forall>x\<in>set (iters_of scenario_d_iter). it_cur x = 0"
    by (simp add: scenario_d_iters)
  have lo: "(0::nat) \<le> 7" and hi: "(7::nat) - 0 < length ?dst"
    by simp_all
  have wr: "row_updates ?s 1 7 = [3]"
    by (simp add: row_updates_def row_values_def col_values_def iter_defs)
  then have wr': "row_updates ?s 1 7 \<noteq> []" by simp
  have nw: "\<forall>n\<in>set []. row_updates n 1 7 = []" by simp
  from newest_store_update_wins [OF ok, where older = "[?f0, ?f1]" and s = ?s and newer = "[]"
      and cur = 0 and row_idx = 7] its cur lo hi wr' nw
  have "?dst' ! (7 - 0) = last (row_updates ?s 1 7)"
    by blast
  with ok wr show ?thesis by simp
qed


lemma Merger_CollectMutations_concat:
  "DeltaIteratorMerger_CollectMutations iters dst = (OK, out) \<Longrightarrow>
     out = dst @ concat (map batch_muts iters)"
proof (induction iters arbitrary: dst)
  case Nil
  then show ?case by simp
next
  case (Cons s iters)
  from Cons.prems obtain d where s: "Store_CollectMutations s dst = (OK, d)"
    and r: "DeltaIteratorMerger_CollectMutations iters d = (OK, out)"
    by (auto split: prod.splits option.splits)
  from s have "d = dst @ batch_muts s"
    by (simp add: Store_CollectMutations_def split: option.splits)
  with Cons.IH [OF r] show ?case by simp
qed

text \<open>
  \<^bold>\<open>Claim C9.\<close> A \<^verbatim>\<open>CollectMutations\<close> that returns OK has appended to the output the
  mutations of the window of each constituent store, store after store in the order of the
  list, each store's mutations in the store's own order. Nothing sorts the result: there
  are stores, each in transaction-id order, whose collected output is not.
\<close>

theorem collect_mutations_in_store_order:
  assumes ok: "CollectMutations it dst = (OK, out)"
  shows "out = dst @ concat (map batch_muts (iters_of it))
       \<and> (\<exists>iters out'. DeltaIteratorMerger_CollectMutations iters [] = (OK, out')
             \<and> (\<forall>s\<in>set iters. sorted (map mut_txid (batch_muts s)))
             \<and> \<not> sorted (map mut_txid out'))"
proof -
  have m: "DeltaIteratorMerger_CollectMutations (iters_of it) dst = (OK, out)"
    using ok by (cases it) (simp_all split: prod.splits option.splits)
  have a: "out = dst @ concat (map batch_muts (iters_of it))"
    by (rule Merger_CollectMutations_concat [OF m])
  let ?older = "\<lparr>it_muts = [upd 7 5 1 1], it_snap = (\<lambda>txid. True), it_fault = None, it_cur = 0, it_nrows = 10\<rparr>"
  let ?newer = "\<lparr>it_muts = [upd 7 2 1 2], it_snap = (\<lambda>txid. True), it_fault = None, it_cur = 0, it_nrows = 10\<rparr>"
  have "DeltaIteratorMerger_CollectMutations [?older, ?newer] [] = (OK, [upd 7 5 1 1, upd 7 2 1 2])
      \<and> (\<forall>s\<in>set [?older, ?newer]. sorted (map mut_txid (batch_muts s)))
      \<and> \<not> sorted (map mut_txid [upd 7 5 1 1, upd 7 2 1 2])"
    by (simp add: Store_CollectMutations_def batch_muts_def in_batch_def upd_def)
  then have b: "\<exists>iters out'. DeltaIteratorMerger_CollectMutations iters [] = (OK, out')
             \<and> (\<forall>s\<in>set iters. sorted (map mut_txid (batch_muts s)))
             \<and> \<not> sorted (map mut_txid out')"
    by blast
  from a b show ?thesis by blast
qed

theorem collect_mutations_in_store_order_witness:
  "CollectMutations out_of_order_iter [] = (OK, [upd 7 5 1 1, upd 7 6 1 2, upd 7 2 1 3])
   \<and> [upd 7 5 1 1, upd 7 6 1 2, upd 7 2 1 3] = [] @ concat (map batch_muts (iters_of out_of_order_iter))
   \<and> map mut_txid [upd 7 5 1 1, upd 7 6 1 2, upd 7 2 1 3] = [5, 6, 2]"
proof -
  have ok: "CollectMutations out_of_order_iter [] = (OK, [upd 7 5 1 1, upd 7 6 1 2, upd 7 2 1 3])"
    by (simp add: out_of_order_iter_def out_of_order_def iter_defs)
  have tx: "map mut_txid [upd 7 5 1 1, upd 7 6 1 2, upd 7 2 1 3] = [5, 6, 2]"
    by (simp add: upd_def)
  from collect_mutations_in_store_order [OF ok] ok tx show ?thesis by blast
qed

subsection \<open>Open\<close>

lemma Open_loop_ok_step:
  "entry_ok e (m_dir t) c \<Longrightarrow> Open_loop e t (c # rest) = Open_loop e (open_entry e t c) rest"
  by (auto simp: entry_ok_def open_entry_def delta_entry_def delta_idx_def unknown_entry_def is_hidden_def
           split: option.splits sum.splits)

lemma m_dir_open_entry [simp]: "m_dir (open_entry e t c) = m_dir t"
  by (simp add: open_entry_def add_delta_file_def LOG_def new_DeltaFileReader_def Let_def)

lemma m_dir_foldl_open_entry [simp]: "m_dir (foldl (open_entry e) t cs) = m_dir t"
  by (induction cs arbitrary: t) simp_all

lemma Open_loop_good_prefix:
  "\<forall>c\<in>set pre. entry_ok e (m_dir t) c \<Longrightarrow>
     Open_loop e t (pre @ rest) = Open_loop e (foldl (open_entry e) t pre) rest"
proof (induction pre arbitrary: t)
  case Nil
  then show ?case by simp
next
  case (Cons c pre)
  from Cons.prems have c: "entry_ok e (m_dir t) c"
    and pre: "\<forall>x\<in>set pre. entry_ok e (m_dir (open_entry e t c)) x"
    by simp_all
  from Open_loop_ok_step [OF c] Cons.IH [OF pre] show ?case by simp
qed

lemma Open_loop_good:
  "\<forall>c\<in>set cs. entry_ok e (m_dir t) c \<Longrightarrow> Open_loop e t cs = (OK, foldl (open_entry e) t cs)"
  using Open_loop_good_prefix [of cs e t "[]"] by simp

lemma Open_loop_bad_suffix:
  "delta_entry c \<Longrightarrow> delta_idx c = None \<Longrightarrow>
     Open_loop e t (c # rest) = (Some (IOError (''Bad delta file: '' @ JoinPathSegments (m_dir t) c)), t)"
  by (auto simp: delta_entry_def delta_idx_def is_hidden_def split: option.splits)

lemma Open_loop_bad_file:
  "delta_entry c \<Longrightarrow> delta_idx c = Some idx \<Longrightarrow>
   DeltaFileReader_Open e (JoinPathSegments (m_dir t) c) = Inl s \<Longrightarrow>
     Open_loop e t (c # rest)
       = (Some s, LOG (LOG_ERROR (''Failed to open delta file '' @ JoinPathSegments (m_dir t) c
                                    @ '': '' @ Status_ToString s)) t)"
  by (auto simp: delta_entry_def delta_idx_def is_hidden_def split: option.splits)

lemma open_entry_stores:
  "entry_ok e (m_dir t) c \<Longrightarrow>
     m_delta_stores (open_entry e t c)
       = m_delta_stores t @ (if delta_entry c then [FileStore (next_addr t)] else [])
   \<and> next_addr (open_entry e t c) = (if delta_entry c then Suc (next_addr t) else next_addr t)
   \<and> file_heap (open_entry e t c)
       = (if delta_entry c
          then (file_heap t)(next_addr t := projr (DeltaFileReader_Open e (JoinPathSegments (m_dir t) c)))
          else file_heap t)
   \<and> m_next_deltafile_idx (open_entry e t c)
       = (if delta_entry c then max (m_next_deltafile_idx t) (the (delta_idx c) + 1)
          else m_next_deltafile_idx t)"
  by (simp add: open_entry_def add_delta_file_def LOG_def new_DeltaFileReader_def Let_def delta_entry_def)

lemma foldl_open_entry_length:
  "\<forall>c\<in>set cs. entry_ok e (m_dir t) c \<Longrightarrow>
     length (m_delta_stores (foldl (open_entry e) t cs))
       = length (m_delta_stores t) + length (filter delta_entry cs)
   \<and> next_addr t \<le> next_addr (foldl (open_entry e) t cs)"
proof (induction cs arbitrary: t)
  case Nil
  then show ?case by simp
next
  case (Cons c cs)
  from Cons.prems have c: "entry_ok e (m_dir t) c"
    and cs: "\<forall>x\<in>set cs. entry_ok e (m_dir (open_entry e t c)) x"
    by simp_all
  from Cons.IH [OF cs] open_entry_stores [OF c] show ?case by (auto split: if_splits)
qed

lemma foldl_open_entry_heap:
  "\<forall>c\<in>set cs. entry_ok e (m_dir t) c \<Longrightarrow> a < next_addr t \<Longrightarrow>
     file_heap (foldl (open_entry e) t cs) a = file_heap t a"
proof (induction cs arbitrary: t)
  case Nil
  then show ?case by simp
next
  case (Cons c cs)
  from Cons.prems have c: "entry_ok e (m_dir t) c"
    and cs: "\<forall>x\<in>set cs. entry_ok e (m_dir (open_entry e t c)) x"
    by simp_all
  from open_entry_stores [OF c] Cons.prems(2) have a: "a < next_addr (open_entry e t c)"
    and h: "file_heap (open_entry e t c) a = file_heap t a"
    by auto
  from Cons.IH [OF cs a] h show ?case by simp
qed

lemma foldl_open_entry_paths:
  "\<forall>c\<in>set cs. entry_ok e (m_dir t) c \<Longrightarrow>
   \<forall>r\<in>set (m_delta_stores t). \<exists>a. r = FileStore a \<and> a < next_addr t \<Longrightarrow>
     store_paths (foldl (open_entry e) t cs)
       = store_paths t @ map (JoinPathSegments (m_dir t)) (filter delta_entry cs)
   \<and> (\<forall>r\<in>set (m_delta_stores (foldl (open_entry e) t cs)). \<exists>a. r = FileStore a)"
proof (induction cs arbitrary: t)
  case Nil
  then show ?case by auto
next
  case (Cons c cs)
  let ?t1 = "open_entry e t c"
  from Cons.prems have c: "entry_ok e (m_dir t) c"
    and cs: "\<forall>x\<in>set cs. entry_ok e (m_dir ?t1) x"
    by simp_all
  note st = open_entry_stores [OF c]
  from st Cons.prems(2) have wf1: "\<forall>r\<in>set (m_delta_stores ?t1). \<exists>a. r = FileStore a \<and> a < next_addr ?t1"
    by (auto simp: less_Suc_eq)
  have old: "map (path_of ?t1) (m_delta_stores t) = map (path_of t) (m_delta_stores t)"
  proof (rule map_cong [OF refl])
    fix r assume "r \<in> set (m_delta_stores t)"
    with Cons.prems(2) obtain a where "r = FileStore a" "a < next_addr t" by blast
    with st show "path_of ?t1 r = path_of t r" by auto
  qed
  have p1: "store_paths ?t1 = store_paths t @ (if delta_entry c then [JoinPathSegments (m_dir t) c] else [])"
  proof (cases "delta_entry c")
    case True
    with c obtain r where r: "DeltaFileReader_Open e (JoinPathSegments (m_dir t) c) = Inr r"
      by (cases "DeltaFileReader_Open e (JoinPathSegments (m_dir t) c)") (auto simp: entry_ok_def)
    then have "dfr_path r = JoinPathSegments (m_dir t) c"
      by (auto simp: DeltaFileReader_Open_def split: option.splits)
    with True st r old show ?thesis by (simp add: store_paths_def)
  next
    case False
    with st old show ?thesis by (simp add: store_paths_def)
  qed
  from Cons.IH [OF cs wf1] p1 show ?case by simp
qed

lemma foldl_open_entry_idx:
  "\<forall>c\<in>set cs. entry_ok e (m_dir t) c \<Longrightarrow>
     m_next_deltafile_idx (foldl (open_entry e) t cs)
       = foldl (\<lambda>n c. max n (the (delta_idx c) + 1)) (m_next_deltafile_idx t) (filter delta_entry cs)"
proof (induction cs arbitrary: t)
  case Nil
  then show ?case by simp
next
  case (Cons c cs)
  from Cons.prems have c: "entry_ok e (m_dir t) c"
    and cs: "\<forall>x\<in>set cs. entry_ok e (m_dir (open_entry e t c)) x"
    by simp_all
  from Cons.IH [OF cs] open_entry_stores [OF c] show ?case by simp
qed

lemma foldl_max_Max:
  fixes n0 :: "'a::linorder"
  shows "foldl (\<lambda>n c. max n (f c)) n0 cs = Max (insert n0 (f ` set cs))"
proof (induction cs arbitrary: n0)
  case Nil
  then show ?case by simp
next
  case (Cons c cs)
  have "Max (insert (max n0 (f c)) (f ` set cs)) = Max (insert n0 (insert (f c) (f ` set cs)))"
    by (cases "set cs = {}") (simp_all add: max.assoc)
  with Cons.IH [of "max n0 (f c)"] show ?case by simp
qed

lemma log_open_entry: "set (log t) \<subseteq> set (log (open_entry e t c))"
  by (auto simp: open_entry_def add_delta_file_def LOG_def new_DeltaFileReader_def Let_def)

lemma log_foldl_open_entry: "set (log t) \<subseteq> set (log (foldl (open_entry e) t cs))"
proof (induction cs arbitrary: t)
  case Nil
  then show ?case by simp
next
  case (Cons c cs)
  from log_open_entry [of t e c] Cons.IH [of "open_entry e t c"] show ?case by auto
qed

lemma foldl_open_entry_warnings:
  "c \<in> set cs \<Longrightarrow> unknown_entry c \<Longrightarrow>
     LOG_WARNING (''ignoring unknown file: '' @ JoinPathSegments (m_dir t) c)
       \<in> set (log (foldl (open_entry e) t cs))"
proof (induction cs arbitrary: t)
  case Nil
  then show ?case by simp
next
  case (Cons x cs)
  show ?case
  proof (cases "c = x")
    case True
    with Cons.prems(2) have "LOG_WARNING (''ignoring unknown file: '' @ JoinPathSegments (m_dir t) c)
        \<in> set (log (open_entry e t x))"
      by (simp add: open_entry_def unknown_entry_def delta_entry_def LOG_def)
    with log_foldl_open_entry [of "open_entry e t x" e cs] show ?thesis by auto
  next
    case False
    with Cons.prems have "c \<in> set cs" by simp
    from Cons.IH [OF this Cons.prems(2), of "open_entry e t x"] show ?thesis by simp
  qed
qed


lemmas open_defs = Open_def GetChildren_def rowset_dir_def corrupt_delta_5_def no_faults_def kDeltaPrefix_def kColumnPrefix_def
  safe_strtou32_def is_digit_def digit_val_def DeltaFileReader_Open_def add_delta_file_def LOG_def
  new_DeltaFileReader_def JoinPathSegments_def DeltaTracker_def store_paths_def Let_def

lemma delta_names:
  "delta_idx ''delta_0'' = Some 0" "delta_idx ''delta_5'' = Some 5" "delta_idx ''delta_7'' = Some 7"
  by (simp_all add: delta_idx_def kDeltaPrefix_def safe_strtou32_def is_digit_def digit_val_def)

lemma Open_as_loop:
  "m_delta_stores t = [] \<Longrightarrow> \<not> m_open t \<Longrightarrow> GetChildren e (m_dir t) = Inr childs \<Longrightarrow>
     Open e t = Inr (Open_loop e t childs)"
  by (simp add: Open_def)

text \<open>
  \<^bold>\<open>Claim C2.\<close> As amended. On a tracker that has an empty store list, is not open and has
  next index 0, when the listing of the rowset directory succeeds and has no entry twice,
  its delta entries are exactly \<^verbatim>\<open>delta_0\<close>, \<^verbatim>\<open>delta_5\<close> and \<^verbatim>\<open>delta_7\<close>, and each of the
  three files opens, \<^verbatim>\<open>Open\<close> returns OK, the store list holds exactly three file-backed
  stores, the readers of these files in the order the listing gives them (so in ascending
  order when the listing is ascending), and the next index is 8.
\<close>

theorem open_three_delta_files:
  assumes empty: "m_delta_stores t = []" and closed: "\<not> m_open t" and zero: "m_next_deltafile_idx t = 0"
      and ls: "GetChildren e (m_dir t) = Inr childs"
      and dist: "distinct childs"
      and three: "set (filter delta_entry childs) = {''delta_0'', ''delta_5'', ''delta_7''}"
      and opens: "\<forall>c\<in>{''delta_0'', ''delta_5'', ''delta_7''}.
                    \<not> isl (DeltaFileReader_Open e (JoinPathSegments (m_dir t) c))"
  shows "\<exists>t'. Open e t = Inr (OK, t')
       \<and> length (m_delta_stores t') = 3
       \<and> (\<forall>r\<in>set (m_delta_stores t'). \<exists>a. r = FileStore a)
       \<and> store_paths t' = map (JoinPathSegments (m_dir t)) (filter delta_entry childs)
       \<and> (filter delta_entry childs = [''delta_0'', ''delta_5'', ''delta_7''] \<longrightarrow>
            store_paths t' = map (JoinPathSegments (m_dir t)) [''delta_0'', ''delta_5'', ''delta_7''])
       \<and> m_next_deltafile_idx t' = 8"
proof -
  let ?t' = "foldl (open_entry e) t childs"
  let ?ds = "filter delta_entry childs"
  have ok: "\<forall>c\<in>set childs. entry_ok e (m_dir t) c"
  proof
    fix c assume c: "c \<in> set childs"
    show "entry_ok e (m_dir t) c"
    proof (cases "delta_entry c")
      case True
      with c three have "c \<in> {''delta_0'', ''delta_5'', ''delta_7''}" by auto
      with opens delta_names show ?thesis by (auto simp: entry_ok_def)
    next
      case False
      then show ?thesis by (simp add: entry_ok_def)
    qed
  qed
  have res: "Open e t = Inr (OK, ?t')"
    using Open_as_loop [OF empty closed ls] Open_loop_good [OF ok] by simp
  from dist have "distinct ?ds" by simp
  then have "length ?ds = card (set ?ds)" by (rule distinct_card [symmetric])
  also have "\<dots> = 3" unfolding three by simp
  finally have n: "length ?ds = 3" .
  from foldl_open_entry_length [OF ok] empty n have len: "length (m_delta_stores ?t') = 3"
    by simp
  have wf: "\<forall>r\<in>set (m_delta_stores t). \<exists>a. r = FileStore a \<and> a < next_addr t"
    using empty by simp
  from foldl_open_entry_paths [OF ok wf] empty
  have paths: "store_paths ?t' = map (JoinPathSegments (m_dir t)) ?ds"
    and files: "\<forall>r\<in>set (m_delta_stores ?t'). \<exists>a. r = FileStore a"
    by (simp_all add: store_paths_def)
  have "m_next_deltafile_idx ?t' = Max (insert 0 ((\<lambda>c. the (delta_idx c) + 1) ` set ?ds))"
    using foldl_open_entry_idx [OF ok] zero by (simp add: foldl_max_Max)
  also have "\<dots> = 8"
    unfolding three by (simp add: delta_names)
  finally have idx: "m_next_deltafile_idx ?t' = 8" .
  from res len files paths idx show ?thesis by simp
qed

theorem open_three_delta_files_witness:
  "m_delta_stores (DeltaTracker ''rs'' 10) = [] \<and> \<not> m_open (DeltaTracker ''rs'' 10)
   \<and> m_next_deltafile_idx (DeltaTracker ''rs'' 10) = 0
   \<and> distinct [''col_0'', ''delta_7'', ''.delta_9'', ''delta_0'', ''junk'', ''delta_5'']
   \<and> (\<exists>t'. Open (rowset_dir [''col_0'', ''delta_7'', ''.delta_9'', ''delta_0'', ''junk'', ''delta_5''])
               (DeltaTracker ''rs'' 10) = Inr (OK, t')
        \<and> length (m_delta_stores t') = 3
        \<and> store_paths t' = [''rs/delta_7'', ''rs/delta_0'', ''rs/delta_5'']
        \<and> m_next_deltafile_idx t' = 8)"
proof -
  let ?l = "[''col_0'', ''delta_7'', ''.delta_9'', ''delta_0'', ''junk'', ''delta_5'']"
  let ?t = "DeltaTracker ''rs'' 10"
  have h1: "m_delta_stores ?t = []" and h2: "\<not> m_open ?t" and h3: "m_next_deltafile_idx ?t = 0"
    by (simp_all add: DeltaTracker_def)
  have h4: "GetChildren (rowset_dir ?l) (m_dir ?t) = Inr ?l"
    by (simp add: GetChildren_def rowset_dir_def no_faults_def)
  have h5: "distinct ?l" by simp
  have f: "filter delta_entry ?l = [''delta_7'', ''delta_0'', ''delta_5'']"
    by (simp add: delta_entry_def is_hidden_def kDeltaPrefix_def)
  then have h6: "set (filter delta_entry ?l) = {''delta_0'', ''delta_5'', ''delta_7''}"
    by auto
  have h7: "\<forall>c\<in>{''delta_0'', ''delta_5'', ''delta_7''}.
              \<not> isl (DeltaFileReader_Open (rowset_dir ?l) (JoinPathSegments (m_dir ?t) c))"
    by (simp add: open_defs)
  from open_three_delta_files [OF h1 h2 h3 h4 h5 h6 h7] f h1 h2 h3 h5 show ?thesis
    by (auto simp: JoinPathSegments_def DeltaTracker_def)
qed

text \<open>Claim C2 as stated fails: with the listing \<^verbatim>\<open>delta_7, delta_0, delta_5\<close> the open
  succeeds and the stores are in that order, not in ascending order; and with the three
  entries listed but \<^verbatim>\<open>delta_5\<close> unreadable the open returns that file's error.\<close>

theorem open_keeps_listing_order:
  "set (filter delta_entry [''delta_7'', ''delta_0'', ''delta_5'']) = {''delta_0'', ''delta_5'', ''delta_7''}
   \<and> fst (projr (Open (rowset_dir [''delta_7'', ''delta_0'', ''delta_5'']) (DeltaTracker ''rs'' 10))) = OK
   \<and> store_paths (snd (projr (Open (rowset_dir [''delta_7'', ''delta_0'', ''delta_5'']) (DeltaTracker ''rs'' 10))))
       = [''rs/delta_7'', ''rs/delta_0'', ''rs/delta_5'']
   \<and> store_paths (snd (projr (Open (rowset_dir [''delta_7'', ''delta_0'', ''delta_5'']) (DeltaTracker ''rs'' 10))))
       \<noteq> [''rs/delta_0'', ''rs/delta_5'', ''rs/delta_7'']
   \<and> set (filter delta_entry [''delta_0'', ''delta_5'', ''delta_7'']) = {''delta_0'', ''delta_5'', ''delta_7''}
   \<and> \<not> isl (Open (corrupt_delta_5 [''delta_0'', ''delta_5'', ''delta_7'']) (DeltaTracker ''rs'' 10))
   \<and> fst (projr (Open (corrupt_delta_5 [''delta_0'', ''delta_5'', ''delta_7'']) (DeltaTracker ''rs'' 10)))
       = Some (Corruption ''rs/delta_5'')"
  by (simp add: open_defs delta_entry_def is_hidden_def insert_commute)

lemma not_entry_ok:
  "\<not> entry_ok e dir c \<Longrightarrow>
     delta_entry c \<and> (delta_idx c = None
        \<or> (\<exists>idx s. delta_idx c = Some idx \<and> DeltaFileReader_Open e (JoinPathSegments dir c) = Inl s))"
  by (cases "DeltaFileReader_Open e (JoinPathSegments dir c)") (auto simp: entry_ok_def)

lemma store_paths_LOG [simp]: "store_paths (LOG entry t) = store_paths t"
proof -
  have "path_of (LOG entry t) r = path_of t r" for r
    by (cases r) (simp_all add: LOG_def)
  then show ?thesis by (simp add: store_paths_def LOG_def)
qed

text \<open>
  \<^bold>\<open>Claim C4.\<close> As amended. On a tracker with an empty store list that is not open, once
  the listing has succeeded: an entry that is not fine makes \<^verbatim>\<open>Open\<close> return an error; for
  the first such entry, a suffix that does not parse gives the I/O error
  \<^verbatim>\<open>Bad delta file: <path>\<close> and a file that does not open gives the error of that open, and
  the readers of the delta entries listed before it stay in the store list; when every
  entry is fine \<^verbatim>\<open>Open\<close> returns OK, and each unknown entry (not hidden, neither prefix) has
  its warning in the log.
\<close>

theorem open_error_on_bad_delta_file:
  assumes empty: "m_delta_stores t = []" and closed: "\<not> m_open t"
      and ls: "GetChildren e (m_dir t) = Inr childs"
  shows "((\<exists>c\<in>set childs. \<not> entry_ok e (m_dir t) c) \<longrightarrow> (\<exists>err t'. Open e t = Inr (Some err, t')))
       \<and> (childs = before @ c # rest \<longrightarrow> (\<forall>x\<in>set before. entry_ok e (m_dir t) x) \<longrightarrow>
            delta_entry c \<longrightarrow> delta_idx c = None \<longrightarrow>
            (\<exists>t'. Open e t = Inr (Some (IOError (''Bad delta file: '' @ JoinPathSegments (m_dir t) c)), t')
                \<and> store_paths t' = map (JoinPathSegments (m_dir t)) (filter delta_entry before)))
       \<and> (childs = before @ c # rest \<longrightarrow> (\<forall>x\<in>set before. entry_ok e (m_dir t) x) \<longrightarrow>
            delta_entry c \<longrightarrow> delta_idx c = Some idx \<longrightarrow>
            DeltaFileReader_Open e (JoinPathSegments (m_dir t) c) = Inl s \<longrightarrow>
            (\<exists>t'. Open e t = Inr (Some s, t')
                \<and> store_paths t' = map (JoinPathSegments (m_dir t)) (filter delta_entry before)))
       \<and> ((\<forall>c\<in>set childs. entry_ok e (m_dir t) c) \<longrightarrow>
            (\<exists>t'. Open e t = Inr (OK, t')
                \<and> (\<forall>c\<in>set childs. unknown_entry c \<longrightarrow>
                      LOG_WARNING (''ignoring unknown file: '' @ JoinPathSegments (m_dir t) c) \<in> set (log t'))))"
proof -
  note O = Open_as_loop [OF empty closed ls]
  have wf: "\<forall>r\<in>set (m_delta_stores t). \<exists>a. r = FileStore a \<and> a < next_addr t"
    using empty by simp
  have paths: "store_paths (foldl (open_entry e) t pre) = map (JoinPathSegments (m_dir t)) (filter delta_entry pre)"
    if "\<forall>x\<in>set pre. entry_ok e (m_dir t) x" for pre
    using foldl_open_entry_paths [OF that wf] empty by (simp add: store_paths_def)
  have bad_suffix: "\<exists>t'. Open e t = Inr (Some (IOError (''Bad delta file: '' @ JoinPathSegments (m_dir t) x)), t')
                \<and> store_paths t' = map (JoinPathSegments (m_dir t)) (filter delta_entry pre)"
    if "childs = pre @ x # post" and good: "\<forall>y\<in>set pre. entry_ok e (m_dir t) y"
      and "delta_entry x" and "delta_idx x = None" for pre x post
    using O that Open_loop_good_prefix [OF good, of "x # post"]
      Open_loop_bad_suffix [of x e "foldl (open_entry e) t pre" post] paths [OF good]
    by simp
  have bad_file: "\<exists>t'. Open e t = Inr (Some err, t')
                \<and> store_paths t' = map (JoinPathSegments (m_dir t)) (filter delta_entry pre)"
    if "childs = pre @ x # post" and good: "\<forall>y\<in>set pre. entry_ok e (m_dir t) y"
      and "delta_entry x" and "delta_idx x = Some i"
      and "DeltaFileReader_Open e (JoinPathSegments (m_dir t) x) = Inl err" for pre x post i err
    using O that Open_loop_good_prefix [OF good, of "x # post"]
      Open_loop_bad_file [of x i e "foldl (open_entry e) t pre" err post] paths [OF good]
    by simp
  have a: "\<exists>err t'. Open e t = Inr (Some err, t')" if "\<exists>c\<in>set childs. \<not> entry_ok e (m_dir t) c"
  proof -
    from split_list_first_prop [OF that]
    obtain pre x post where sp: "childs = pre @ x # post" and x: "\<not> entry_ok e (m_dir t) x"
      and good: "\<forall>y\<in>set pre. entry_ok e (m_dir t) y"
      by auto
    from not_entry_ok [OF x] bad_suffix [OF sp good] bad_file [OF sp good] show ?thesis
      by blast
  qed
  have d: "\<exists>t'. Open e t = Inr (OK, t')
                \<and> (\<forall>c\<in>set childs. unknown_entry c \<longrightarrow>
                      LOG_WARNING (''ignoring unknown file: '' @ JoinPathSegments (m_dir t) c) \<in> set (log t'))"
    if good: "\<forall>c\<in>set childs. entry_ok e (m_dir t) c"
    using O Open_loop_good [OF good] foldl_open_entry_warnings [of _ childs t e] by simp
  from a bad_suffix bad_file d show ?thesis by blast
qed


theorem open_error_on_bad_delta_file_witness:
  "m_delta_stores (DeltaTracker ''rs'' 10) = [] \<and> \<not> m_open (DeltaTracker ''rs'' 10)
   \<and> GetChildren (rowset_dir bad_listing) (m_dir (DeltaTracker ''rs'' 10)) = Inr bad_listing
   \<and> bad_listing = [''delta_0'', ''.tmp'', ''junk''] @ ''delta_x'' # [''delta_7'']
   \<and> entry_ok (rowset_dir bad_listing) (m_dir (DeltaTracker ''rs'' 10)) ''delta_0''
   \<and> entry_ok (rowset_dir bad_listing) (m_dir (DeltaTracker ''rs'' 10)) ''.tmp''
   \<and> entry_ok (rowset_dir bad_listing) (m_dir (DeltaTracker ''rs'' 10)) ''junk''
   \<and> delta_entry ''delta_x'' \<and> delta_idx ''delta_x'' = None
   \<and> (\<exists>t'. Open (rowset_dir bad_listing) (DeltaTracker ''rs'' 10)
               = Inr (Some (IOError ''Bad delta file: rs/delta_x''), t')
          \<and> store_paths t' = [''rs/delta_0''])"
proof -
  let ?t = "DeltaTracker ''rs'' 10"
  let ?e = "rowset_dir bad_listing"
  have h1: "m_delta_stores ?t = []" and h2: "\<not> m_open ?t"
    by (simp_all add: DeltaTracker_def)
  have h3: "GetChildren ?e (m_dir ?t) = Inr bad_listing"
    by (simp add: GetChildren_def rowset_dir_def no_faults_def)
  have h4: "bad_listing = [''delta_0'', ''.tmp'', ''junk''] @ ''delta_x'' # [''delta_7'']"
    by (simp add: bad_listing_def)
  have h5: "\<forall>x\<in>set [''delta_0'', ''.tmp'', ''junk'']. entry_ok ?e (m_dir ?t) x"
    by (simp add: entry_ok_def delta_entry_def delta_idx_def is_hidden_def open_defs)
  have h6: "delta_entry ''delta_x''"
    by (simp add: delta_entry_def is_hidden_def kDeltaPrefix_def)
  have h7: "delta_idx ''delta_x'' = None"
    by (simp add: delta_idx_def kDeltaPrefix_def safe_strtou32_def is_digit_def)
  have f: "filter delta_entry [''delta_0'', ''.tmp'', ''junk''] = [''delta_0'']"
    by (simp add: delta_entry_def is_hidden_def kDeltaPrefix_def)
  from open_error_on_bad_delta_file [OF h1 h2 h3, where before = "[''delta_0'', ''.tmp'', ''junk'']"
      and c = "''delta_x''" and rest = "[''delta_7'']"] h4 h5 h6 h7
  have "\<exists>t'. Open ?e ?t = Inr (Some (IOError (''Bad delta file: '' @ JoinPathSegments (m_dir ?t) ''delta_x'')), t')
          \<and> store_paths t' = map (JoinPathSegments (m_dir ?t)) (filter delta_entry [''delta_0'', ''.tmp'', ''junk''])"
    by blast
  then have "\<exists>t'. Open ?e ?t = Inr (Some (IOError ''Bad delta file: rs/delta_x''), t')
          \<and> store_paths t' = [''rs/delta_0'']"
    unfolding f by (simp add: JoinPathSegments_def DeltaTracker_def)
  with h1 h2 h3 h4 h5 h6 h7 show ?thesis by simp
qed

text \<open>Claim C4 as stated fails: the error of a suffix that does not parse is an I/O error,
  not a corruption; the reader opened before it is left in the store list; and the hidden
  entry \<^verbatim>\<open>.tmp\<close>, which has neither prefix, is skipped without a log line.\<close>

theorem open_bad_suffix_is_io_error:
  "\<not> isl (Open (rowset_dir bad_listing) (DeltaTracker ''rs'' 10))
   \<and> fst (projr (Open (rowset_dir bad_listing) (DeltaTracker ''rs'' 10)))
       = Some (IOError ''Bad delta file: rs/delta_x'')
   \<and> store_paths (snd (projr (Open (rowset_dir bad_listing) (DeltaTracker ''rs'' 10)))) = [''rs/delta_0'']
   \<and> m_delta_stores (snd (projr (Open (rowset_dir bad_listing) (DeltaTracker ''rs'' 10)))) \<noteq> []
   \<and> log (snd (projr (Open (rowset_dir bad_listing) (DeltaTracker ''rs'' 10))))
       = [LOG_INFO ''Successfully opened delta file rs/delta_0'', LOG_WARNING ''ignoring unknown file: rs/junk'']"
  by (simp add: open_defs bad_listing_def)

subsection \<open>The active store is allocated\<close>

text \<open>The address of the active store is below the next address to hand out in the
  tracker the constructor makes, and \<^verbatim>\<open>Update\<close>, \<^verbatim>\<open>Flush\<close> and \<^verbatim>\<open>Open\<close> keep it so.\<close>

lemma DeltaTracker_allocated: "m_dms (DeltaTracker dir num_rows) < next_addr (DeltaTracker dir num_rows)"
  by (simp add: DeltaTracker_def)

lemma Update_allocated:
  "Update t txid row_idx update = Inr t' \<Longrightarrow> m_dms t < next_addr t \<Longrightarrow> m_dms t' < next_addr t'"
  by (auto simp: Update_def split: if_splits)

lemma Flush_allocated:
  assumes "Flush e t = Inr (s, e', t')" and "m_dms t < next_addr t"
  shows "m_dms t' < next_addr t'"
proof (cases "flush_swap t")
  case None
  with assms show ?thesis by (simp add: Flush_def)
next
  case (Some sw)
  obtain old cnt t1 where sw: "sw = (old, cnt, t1)" by (cases sw) auto
  let ?t2 = "LOG (LOG_INFO (''Flushing '' @ show_nat cnt @ '' deltas...'')) t1"
  obtain e2 t3 r where fd: "FlushDMS e ?t2 old = (e2, t3, r)"
    by (cases "FlushDMS e ?t2 old") auto
  from assms(1) Some sw fd obtain dfr where r: "r = Inr dfr"
    by (cases r) (auto simp: Flush_def)
  note F = FlushDMS_Inr [OF fd [unfolded r]]
  from flush_swap_dms [OF Some [unfolded sw]] F
  have "m_dms t3 = next_addr t" and "next_addr t3 = Suc (Suc (next_addr t))"
    by (simp_all add: LOG_def)
  moreover from assms(1) Some sw fd r have "m_dms t' = m_dms t3 \<and> next_addr t' = next_addr t3"
    by (auto simp: Flush_def flush_commit_def Let_def split: if_splits sum.splits)
  ultimately show ?thesis by simp
qed

lemma Open_loop_allocated:
  "Open_loop e t cs = (s, t') \<Longrightarrow> m_dms t' = m_dms t \<and> next_addr t \<le> next_addr t'"
proof (induction cs arbitrary: t)
  case Nil
  then show ?case by simp
next
  case (Cons c cs)
  show ?case
  proof (cases "entry_ok e (m_dir t) c")
    case True
    from Cons.prems Open_loop_ok_step [OF True] have "Open_loop e (open_entry e t c) cs = (s, t')"
      by simp
    from Cons.IH [OF this] open_entry_stores [OF True] show ?thesis
      by (auto simp: open_entry_def add_delta_file_def LOG_def new_DeltaFileReader_def Let_def
               split: if_splits)
  next
    case False
    from not_entry_ok [OF False] Cons.prems
      Open_loop_bad_suffix [of c e t cs] Open_loop_bad_file [of c _ e t _ cs]
    show ?thesis by (auto simp: LOG_def)
  qed
qed

lemma Open_allocated:
  "Open e t = Inr (s, t') \<Longrightarrow> m_dms t < next_addr t \<Longrightarrow> m_dms t' < next_addr t'"
  by (auto simp: Open_def split: if_splits sum.splits dest: Open_loop_allocated)


end
